theory Spec2Isabelle
  imports Complex_Main
begin

section \<open>The Patrix image generator (gen\_patrix.py)\<close>

text \<open>
  A shallow embedding of \<^verbatim>\<open>gen_patrix.py\<close>: the tile dropper class, the optional
  pre-fill pass, the driver \<^verbatim>\<open>run\<close> and the entry point \<^verbatim>\<open>main\<close>.

  Python exceptions are values of \<open>py_error\<close>; every function that can raise returns
  \<open>py_error + result\<close>. The module-level random generator is threaded through as an
  explicit state \<open>'g\<close>. The canvas and its copies live in a store (a list of images
  indexed by reference), because the droppers share one canvas by reference and the
  frame list holds copies of it.
\<close>

subsection \<open>Exceptions\<close>

datatype py_error =
    IndexError_empty_choice    \<comment> \<open>\<^verbatim>\<open>random.choice\<close> on an empty sequence\<close>
  | IndexError_list_index      \<comment> \<open>list index out of range\<close>
  | ValueError_range_step      \<comment> \<open>\<^verbatim>\<open>range()\<close> arg 3 must not be zero\<close>
  | ValueError_image_size      \<comment> \<open>\<^verbatim>\<open>Image.new\<close>: width and height must be >= 0\<close>
  | TypeError_none_subscript   \<comment> \<open>subscripting \<^verbatim>\<open>None\<close>\<close>
  | Error_file_config          \<comment> \<open>whatever \<^verbatim>\<open>logging.config.fileConfig\<close> raises\<close>

subsection \<open>Images (the part of PIL the program uses)\<close>

type_synonym pixel = "nat \<times> nat \<times> nat"

record image =
  isize :: "int \<times> int"              \<comment> \<open>\<^verbatim>\<open>im.size\<close>: (width, height)\<close>
  pix :: "int \<times> int \<Rightarrow> pixel"      \<comment> \<open>the pixel at (column, row)\<close>

definition Image_new :: "int \<times> int \<Rightarrow> py_error + image" where
  "Image_new sz =
     (if fst sz < 0 \<or> snd sz < 0 then Inl ValueError_image_size
      else Inr \<lparr>isize = sz, pix = (\<lambda>_. (0, 0, 0))\<rparr>)"

text \<open>\<^verbatim>\<open>dst.paste(src, box=(x, y))\<close>: the rectangle of \<open>src\<close> is written with its upper
  left corner at \<open>(x, y)\<close>; what falls outside \<open>dst\<close> is clipped. The size never changes.\<close>

definition paste :: "image \<Rightarrow> image \<Rightarrow> int \<times> int \<Rightarrow> image" where
  "paste dst src box =
     dst\<lparr>pix := (\<lambda>(i, j).
        if 0 \<le> i \<and> i < fst (isize dst) \<and> 0 \<le> j \<and> j < snd (isize dst)
           \<and> fst box \<le> i \<and> i < fst box + fst (isize src)
           \<and> snd box \<le> j \<and> j < snd box + snd (isize src)
        then pix src (i - fst box, j - snd box)
        else pix dst (i, j))\<rparr>"

subsection \<open>The store of mutable images\<close>

type_synonym ref = nat
type_synonym heap = "image list"

definition heap_paste :: "heap \<Rightarrow> ref \<Rightarrow> image \<Rightarrow> int \<times> int \<Rightarrow> heap" where
  \<comment> \<open>\<^verbatim>\<open>img.paste(src, box=box)\<close> on the image that \<open>r\<close> refers to\<close>
  "heap_paste h r src box = h[r := paste (h ! r) src box]"

definition heap_copy :: "heap \<Rightarrow> ref \<Rightarrow> ref \<times> heap" where
  \<comment> \<open>\<^verbatim>\<open>img.copy()\<close>: a new image object with the same contents\<close>
  "heap_copy h r = (length h, h @ [h ! r])"

subsection \<open>The library functions taken as parameters\<close>

text \<open>
  The random module and the brightness enhancer are not code of this program. They
  are parameters: \<open>randbelow n g\<close> is \<^verbatim>\<open>Random._randbelow(n)\<close>, on which
  \<^verbatim>\<open>random.choice\<close> is built; \<open>randfloor n g\<close> is \<^verbatim>\<open>floor(random() * n)\<close>, on
  which \<^verbatim>\<open>random.choices\<close> is built; \<open>enhance f im\<close> is
  \<^verbatim>\<open>ImageEnhance.Brightness(im).enhance(f)\<close>; \<open>fileConfig p\<close> is the level that
  \<^verbatim>\<open>logging.config.fileConfig(p)\<close> leaves this module's logger with, or its failure.
  The float literals of the source are written as the rationals they denote.
\<close>

record 'g lib =
  randbelow :: "nat \<Rightarrow> 'g \<Rightarrow> nat \<times> 'g"
  randfloor :: "nat \<Rightarrow> 'g \<Rightarrow> nat \<times> 'g"
  enhance :: "rat \<Rightarrow> image \<Rightarrow> image"
  fileConfig :: "string \<Rightarrow> py_error + int"

definition choice :: "'g lib \<Rightarrow> 'a list \<Rightarrow> 'g \<Rightarrow> py_error + ('a \<times> 'g)" where
  \<comment> \<open>\<^verbatim>\<open>random.choice(seq)\<close>\<close>
  "choice L seq g =
     (if length seq = 0 then Inl IndexError_empty_choice
      else (case randbelow L (length seq) g of (k, g') \<Rightarrow>
              if k < length seq then Inr (seq ! k, g') else Inl IndexError_list_index))"

fun choices :: "'g lib \<Rightarrow> 'a list \<Rightarrow> nat \<Rightarrow> 'g \<Rightarrow> py_error + ('a list \<times> 'g)" where
  \<comment> \<open>\<^verbatim>\<open>random.choices(population, k=k)\<close>: k draws with replacement\<close>
  "choices L population 0 g = Inr ([], g)"
| "choices L population (Suc k) g =
     (case randfloor L (length population) g of (i, g') \<Rightarrow>
        if i < length population then
          (case choices L population k g' of
             Inl e \<Rightarrow> Inl e
           | Inr (rest, g'') \<Rightarrow> Inr (population ! i # rest, g''))
        else Inl IndexError_list_index)"

subsection \<open>\<^verbatim>\<open>range\<close> and \<^verbatim>\<open>deque\<close>\<close>

definition py_range :: "int \<Rightarrow> int \<Rightarrow> int \<Rightarrow> py_error + int list" where
  \<comment> \<open>\<^verbatim>\<open>range(start, stop, step)\<close> as the list of its elements\<close>
  "py_range start stop step =
     (if step = 0 then Inl ValueError_range_step
      else if 0 < step then
        Inr (map (\<lambda>k. start + int k * step)
               [0 ..< (if start < stop then nat ((stop - start - 1) div step + 1) else 0)])
      else
        Inr (map (\<lambda>k. start + int k * step)
               [0 ..< (if stop < start then nat ((start - stop - 1) div (- step) + 1) else 0)]))"

record 'a deque =
  maxlen :: nat
  items :: "'a list"

definition deque_new :: "nat \<Rightarrow> 'a deque" where
  "deque_new n = \<lparr>maxlen = n, items = []\<rparr>"

definition clear :: "'a deque \<Rightarrow> 'a deque" where
  "clear q = q\<lparr>items := []\<rparr>"

definition appendleft :: "'a \<Rightarrow> 'a deque \<Rightarrow> 'a deque" where
  \<comment> \<open>a full bounded deque discards from the other end\<close>
  "appendleft x q = q\<lparr>items := take (maxlen q) (x # items q)\<rparr>"

subsection \<open>TileDropper\<close>

record TileDropper =
  td_colsep :: int
  td_rowsep :: int
  td_tile_list :: "image list"
  td_img :: ref
  td_curloc :: "(int \<times> int) option"
  td_thecols :: "int list"
  td_therows :: "int list"
  td_brightness :: "rat list"
  td_prev_tiles :: "image deque"

definition TileDropper_init ::
  "int list \<Rightarrow> int list \<Rightarrow> int \<Rightarrow> int \<Rightarrow> image list \<Rightarrow> ref \<Rightarrow> TileDropper" where
  "TileDropper_init thecols therows colsep rowsep tile_list img =
     \<lparr>td_colsep = colsep, td_rowsep = rowsep, td_tile_list = tile_list, td_img = img,
      td_curloc = None, td_thecols = thecols, td_therows = therows,
      td_brightness = [1, 4 / 5, 3 / 5, 2 / 5, 1 / 5],
      td_prev_tiles = deque_new 5\<rparr>"

definition update_location :: "'g lib \<Rightarrow> TileDropper \<Rightarrow> 'g \<Rightarrow> py_error + (TileDropper \<times> 'g)" where
  "update_location L d g =
     (let d1 = d\<lparr>td_prev_tiles := clear (td_prev_tiles d)\<rparr> in
      case choice L (td_thecols d1) g of
        Inl e \<Rightarrow> Inl e
      | Inr (c, g1) \<Rightarrow>
          (case choice L (td_therows d1) g1 of
             Inl e \<Rightarrow> Inl e
           | Inr (r, g2) \<Rightarrow> Inr (d1\<lparr>td_curloc := Some (c, r)\<rparr>, g2)))"

text \<open>The \<^verbatim>\<open>for entry in self._prev_tiles\<close> loop of \<^verbatim>\<open>drop_tile\<close>, with its counter.\<close>

fun paste_entries ::
  "'g lib \<Rightarrow> TileDropper \<Rightarrow> image list \<Rightarrow> nat \<Rightarrow> heap \<Rightarrow> py_error + heap" where
  "paste_entries L d [] counter h = Inr h"
| "paste_entries L d (entry # rest) counter h =
     (case td_curloc d of
        None \<Rightarrow> Inl TypeError_none_subscript
      | Some (x, y) \<Rightarrow>
          (let ypos = y - int counter * (snd (isize entry) + td_rowsep d) in
           if counter < length (td_brightness d) then
             paste_entries L d rest (Suc counter)
               (heap_paste h (td_img d) (enhance L (td_brightness d ! counter) entry) (x, ypos))
           else Inl IndexError_list_index))"

definition drop_tile ::
  "'g lib \<Rightarrow> TileDropper \<Rightarrow> heap \<Rightarrow> 'g \<Rightarrow> py_error + ((TileDropper \<times> heap) \<times> 'g)" where
  "drop_tile L d h g =
     (case (if td_curloc d = None then update_location L d g else Inr (d, g)) of
        Inl e \<Rightarrow> Inl e
      | Inr (d1, g1) \<Rightarrow>
          (case choice L (td_tile_list d1) g1 of
             Inl e \<Rightarrow> Inl e
           | Inr (a_tile, g2) \<Rightarrow>
               (let d2 = d1\<lparr>td_prev_tiles := appendleft a_tile (td_prev_tiles d1)\<rparr> in
                case paste_entries L d2 (items (td_prev_tiles d2)) 0 h of
                  Inl e \<Rightarrow> Inl e
                | Inr h' \<Rightarrow>
                    (case td_curloc d2 of
                       None \<Rightarrow> Inl TypeError_none_subscript
                     | Some (x, y) \<Rightarrow>
                         (let newy = y + snd (isize a_tile) + td_rowsep d2 in
                          if newy > snd (isize (h' ! td_img d2))
                                    + (snd (isize a_tile) + td_rowsep d2)
                                      * int (length (td_brightness d2))
                          then Inr ((d2\<lparr>td_curloc := None\<rparr>, h'), g2)
                          else Inr ((d2\<lparr>td_curloc := Some (x, newy)\<rparr>, h'), g2))))))"

subsection \<open>The parsed command line\<close>

text \<open>The fields of the argparse namespace that the simulation reads. The tile directory
  and the output directory are input and output: the tile list that \<^verbatim>\<open>get_tiles\<close> loads
  is an argument of \<open>run\<close>, and the animation handed to the encoder is its result.\<close>

record args =
  duration :: int
  numupdators :: int
  prefill :: bool
  numframes :: int
  colsep :: int
  rowsep :: int
  width :: int
  height :: int
  logconf :: "string option"
  verbose :: int

subsection \<open>\<^verbatim>\<open>randomly_fill_image\<close>\<close>

text \<open>The first pair of nested loops, which collects \<^verbatim>\<open>all_tiles\<close>.\<close>

fun all_tiles_loop :: "args \<Rightarrow> int list \<Rightarrow> (int \<times> int) list \<Rightarrow> py_error + (int \<times> int) list" where
  "all_tiles_loop theargs [] acc = Inr acc"
| "all_tiles_loop theargs (x # xs) acc =
     (case py_range 0 (height theargs) (rowsep theargs + 16) of
        Inl e \<Rightarrow> Inl e
      | Inr ys \<Rightarrow> all_tiles_loop theargs xs (acc @ map (\<lambda>y. (x, y)) ys))"

definition all_tiles :: "args \<Rightarrow> py_error + (int \<times> int) list" where
  "all_tiles theargs =
     (case py_range 0 (width theargs) (colsep theargs + 16) of
        Inl e \<Rightarrow> Inl e
      | Inr xs \<Rightarrow> all_tiles_loop theargs xs [])"

text \<open>The second pair of nested loops, which pastes one tile per cell.\<close>

fun fill_ys ::
  "'g lib \<Rightarrow> ref \<Rightarrow> image list \<Rightarrow> (int \<times> int) list \<Rightarrow> int \<Rightarrow> int list \<Rightarrow> heap \<Rightarrow> 'g
     \<Rightarrow> py_error + (heap \<times> 'g)" where
  "fill_ys L img tile_list glowing_tiles x [] h g = Inr (h, g)"
| "fill_ys L img tile_list glowing_tiles x (y # ys) h g =
     (case choice L tile_list g of
        Inl e \<Rightarrow> Inl e
      | Inr (a_tile, g1) \<Rightarrow>
          (let brightness_value = (if (x, y) \<in> set glowing_tiles then 1 else 1 / 5) in
           fill_ys L img tile_list glowing_tiles x ys
             (heap_paste h img (enhance L brightness_value a_tile) (x, y)) g1))"

fun fill_xs ::
  "'g lib \<Rightarrow> args \<Rightarrow> ref \<Rightarrow> image list \<Rightarrow> (int \<times> int) list \<Rightarrow> int list \<Rightarrow> heap \<Rightarrow> 'g
     \<Rightarrow> py_error + (heap \<times> 'g)" where
  "fill_xs L theargs img tile_list glowing_tiles [] h g = Inr (h, g)"
| "fill_xs L theargs img tile_list glowing_tiles (x # xs) h g =
     (case py_range 0 (height theargs) (rowsep theargs + 16) of
        Inl e \<Rightarrow> Inl e
      | Inr ys \<Rightarrow>
          (case fill_ys L img tile_list glowing_tiles x ys h g of
             Inl e \<Rightarrow> Inl e
           | Inr (h1, g1) \<Rightarrow> fill_xs L theargs img tile_list glowing_tiles xs h1 g1))"

definition randomly_fill_image ::
  "'g lib \<Rightarrow> args \<Rightarrow> ref \<Rightarrow> image list \<Rightarrow> heap \<Rightarrow> 'g \<Rightarrow> py_error + (heap \<times> 'g)" where
  "randomly_fill_image L theargs img tile_list h g =
     (case all_tiles theargs of
        Inl e \<Rightarrow> Inl e
      | Inr cells \<Rightarrow>
          (case choices L cells 24 g of
             Inl e \<Rightarrow> Inl e
           | Inr (glowing_tiles, g1) \<Rightarrow>
               (case py_range 0 (width theargs) (colsep theargs + 16) of
                  Inl e \<Rightarrow> Inl e
                | Inr xs \<Rightarrow> fill_xs L theargs img tile_list glowing_tiles xs h g1)))"

subsection \<open>\<^verbatim>\<open>run\<close>\<close>

text \<open>The column and row anchors (\<^verbatim>\<open>thecols\<close>, \<^verbatim>\<open>therows\<close>), from the first tile's size
  and the size of the canvas.\<close>

definition anchor_grid :: "args \<Rightarrow> image list \<Rightarrow> int \<times> int \<Rightarrow> py_error + (int list \<times> int list)" where
  "anchor_grid theargs tile_list imsize =
     (case tile_list of
        [] \<Rightarrow> Inl IndexError_list_index
      | t0 # _ \<Rightarrow>
          (let colwidth = fst (isize t0) + colsep theargs in
           case py_range 0 (fst imsize) colwidth of
             Inl e \<Rightarrow> Inl e
           | Inr thecols \<Rightarrow>
               (let rowwidth = snd (isize t0) + rowsep theargs in
                case py_range 0 (snd imsize - 5 * rowwidth) rowwidth of
                  Inl e \<Rightarrow> Inl e
                | Inr therows \<Rightarrow> Inr (thecols, therows))))"

definition make_droppers :: "args \<Rightarrow> int list \<Rightarrow> int list \<Rightarrow> image list \<Rightarrow> ref \<Rightarrow> TileDropper list" where
  \<comment> \<open>the \<^verbatim>\<open>for tds in range(0, theargs.numupdators)\<close> loop\<close>
  "make_droppers theargs thecols therows tile_list img =
     replicate (nat (numupdators theargs))
       (TileDropper_init thecols therows (colsep theargs) (rowsep theargs) tile_list img)"

text \<open>One frame: every dropper drops once, in list order.\<close>

fun drop_all ::
  "'g lib \<Rightarrow> TileDropper list \<Rightarrow> heap \<Rightarrow> 'g \<Rightarrow> py_error + ((TileDropper list \<times> heap) \<times> 'g)" where
  "drop_all L [] h g = Inr (([], h), g)"
| "drop_all L (d # ds) h g =
     (case drop_tile L d h g of
        Inl e \<Rightarrow> Inl e
      | Inr ((d', h1), g1) \<Rightarrow>
          (case drop_all L ds h1 g1 of
             Inl e \<Rightarrow> Inl e
           | Inr ((ds', h2), g2) \<Rightarrow> Inr ((d' # ds', h2), g2)))"

text \<open>The frame loop \<^verbatim>\<open>for x in range(0, theargs.numframes)\<close>; \<open>img_list\<close> holds the
  references of the copies appended so far.\<close>

fun frames_loop ::
  "'g lib \<Rightarrow> nat \<Rightarrow> TileDropper list \<Rightarrow> ref \<Rightarrow> ref list \<Rightarrow> heap \<Rightarrow> 'g
     \<Rightarrow> py_error + ((ref list \<times> TileDropper list \<times> heap) \<times> 'g)" where
  "frames_loop L 0 d_list img img_list h g = Inr ((img_list, d_list, h), g)"
| "frames_loop L (Suc n) d_list img img_list h g =
     (case drop_all L d_list h g of
        Inl e \<Rightarrow> Inl e
      | Inr ((d_list', h1), g1) \<Rightarrow>
          (case heap_copy h1 img of
             (r, h2) \<Rightarrow> frames_loop L n d_list' img (img_list @ [r]) h2 g1))"

record animation =
  an_frames :: "image list"    \<comment> \<open>the first frame and \<^verbatim>\<open>append_images\<close>\<close>
  an_loop :: int
  an_duration :: int

definition save_gif :: "heap \<Rightarrow> ref list \<Rightarrow> int \<Rightarrow> py_error + animation" where
  \<comment> \<open>\<^verbatim>\<open>img_list[0].save(..., save_all=True, append_images=img_list[1:], loop=0, duration=...)\<close>\<close>
  "save_gif h img_list dur =
     (case img_list of
        [] \<Rightarrow> Inl IndexError_list_index
      | first # rest \<Rightarrow>
          Inr \<lparr>an_frames = (h ! first) # map (\<lambda>r. h ! r) rest, an_loop = 0, an_duration = dur\<rparr>)"

text \<open>The first part of \<^verbatim>\<open>run\<close>, up to the list of droppers. The canvas is the first
  image of the store, reference 0.\<close>

definition run_setup ::
  "'g lib \<Rightarrow> args \<Rightarrow> image list \<Rightarrow> 'g \<Rightarrow> py_error + ((TileDropper list \<times> heap) \<times> 'g)" where
  "run_setup L theargs tile_list g =
     (case Image_new (width theargs, height theargs) of
        Inl e \<Rightarrow> Inl e
      | Inr im \<Rightarrow>
          (case (if prefill theargs then randomly_fill_image L theargs 0 tile_list [im] g
                 else Inr ([im], g)) of
             Inl e \<Rightarrow> Inl e
           | Inr (h1, g1) \<Rightarrow>
               (case anchor_grid theargs tile_list (isize (h1 ! 0)) of
                  Inl e \<Rightarrow> Inl e
                | Inr (thecols, therows) \<Rightarrow>
                    Inr ((make_droppers theargs thecols therows tile_list 0, h1), g1))))"

definition run :: "'g lib \<Rightarrow> args \<Rightarrow> image list \<Rightarrow> 'g \<Rightarrow> py_error + (animation \<times> 'g)" where
  "run L theargs tile_list g =
     (case run_setup L theargs tile_list g of
        Inl e \<Rightarrow> Inl e
      | Inr ((d_list, h1), g1) \<Rightarrow>
          (case frames_loop L (nat (numframes theargs)) d_list 0 [] h1 g1 of
             Inl e \<Rightarrow> Inl e
           | Inr ((img_list, d_list', h2), g2) \<Rightarrow>
               (case save_gif h2 img_list (duration theargs) of
                  Inl e \<Rightarrow> Inl e
                | Inr a \<Rightarrow> Inr (a, g2))))"

subsection \<open>\<^verbatim>\<open>main\<close>\<close>

definition setup_logging :: "'g lib \<Rightarrow> args \<Rightarrow> py_error + int" where
  \<comment> \<open>the level this module's logger has afterwards\<close>
  "setup_logging L theargs =
     (case logconf theargs of
        None \<Rightarrow> Inr (50 - 10 * verbose theargs)
      | Some p \<Rightarrow> fileConfig L p)"

record outcome =
  exit_status :: int
  logged :: "py_error list"         \<comment> \<open>the exceptions the logger emits\<close>
  written :: "animation option"     \<comment> \<open>the animation file, when one is written\<close>

definition log_exception :: "int \<Rightarrow> py_error \<Rightarrow> py_error list" where
  \<comment> \<open>\<^verbatim>\<open>logger.exception\<close> logs at level ERROR (40); a logger emits a record
      when the record's level is at least the logger's level\<close>
  "log_exception level e = (if level \<le> 40 then [e] else [])"

definition main :: "'g lib \<Rightarrow> args \<Rightarrow> image list \<Rightarrow> 'g \<Rightarrow> outcome" where
  \<comment> \<open>before \<^verbatim>\<open>_setup_logging\<close> the logger has the root's default level WARNING (30)\<close>
  "main L theargs tile_list g =
     (case setup_logging L theargs of
        Inl e \<Rightarrow> \<lparr>exit_status = 2, logged = log_exception 30 e, written = None\<rparr>
      | Inr level \<Rightarrow>
          (case run L theargs tile_list g of
             Inl e \<Rightarrow> \<lparr>exit_status = 2, logged = log_exception level e, written = None\<rparr>
           | Inr (a, g') \<Rightarrow> \<lparr>exit_status = 0, logged = [], written = Some a\<rparr>))"

section \<open>Auxiliary definitions\<close>

text \<open>A list of paste operations (source image and box) applied to one image in order.\<close>

definition paste_all :: "image \<Rightarrow> (image \<times> (int \<times> int)) list \<Rightarrow> image" where
  "paste_all im ops = foldl (\<lambda>acc (src, box). paste acc src box) im ops"

text \<open>The trail of a dropper at \<open>loc\<close>: entry \<open>i\<close> of the history \<open>es\<close> (counted from
  \<open>c\<close>) is dimmed by the brightness at its index and placed \<open>i\<close> rows above \<open>loc\<close>.\<close>

definition trail_ops ::
  "'g lib \<Rightarrow> TileDropper \<Rightarrow> int \<times> int \<Rightarrow> nat \<Rightarrow> image list \<Rightarrow> (image \<times> (int \<times> int)) list" where
  "trail_ops L d loc c es =
     map (\<lambda>i. (enhance L (td_brightness d ! (c + i)) (es ! i),
               (fst loc, snd loc - int (c + i) * (snd (isize (es ! i)) + td_rowsep d))))
       [0 ..< length es]"

text \<open>\<open>n\<close> successive calls of \<^verbatim>\<open>drop_tile\<close> on one dropper.\<close>

fun drop_tile_n ::
  "'g lib \<Rightarrow> nat \<Rightarrow> TileDropper \<Rightarrow> heap \<Rightarrow> 'g \<Rightarrow> py_error + ((TileDropper \<times> heap) \<times> 'g)" where
  "drop_tile_n L 0 d h g = Inr ((d, h), g)"
| "drop_tile_n L (Suc n) d h g =
     (case drop_tile L d h g of
        Inl e \<Rightarrow> Inl e
      | Inr ((d1, h1), g1) \<Rightarrow> drop_tile_n L n d1 h1 g1)"

text \<open>What the program relies on from the random module: an index below the bound.\<close>

definition lib_ok :: "'g lib \<Rightarrow> bool" where
  "lib_ok L = (\<forall>n g. 0 < n \<longrightarrow> fst (randbelow L n g) < n \<and> fst (randfloor L n g) < n)"

subsection \<open>Sample data\<close>

definition scale_pixel :: "rat \<Rightarrow> pixel \<Rightarrow> pixel" where
  "scale_pixel f p = (case p of (r, g, b) \<Rightarrow>
     (nat \<lfloor>f * of_nat r\<rfloor>, nat \<lfloor>f * of_nat g\<rfloor>, nat \<lfloor>f * of_nat b\<rfloor>))"

text \<open>A library instance: a counter as generator, and a brightness enhancer that scales
  each channel.\<close>

definition sample_lib :: "nat lib" where
  "sample_lib =
     \<lparr>randbelow = (\<lambda>n g. (g mod n, Suc g)),
      randfloor = (\<lambda>n g. (g mod n, Suc g)),
      enhance = (\<lambda>f im. im\<lparr>pix := (\<lambda>p. scale_pixel f (pix im p))\<rparr>),
      fileConfig = (\<lambda>p. Inl Error_file_config)\<rparr>"

definition tile16 :: image where
  "tile16 = \<lparr>isize = (16, 16), pix = (\<lambda>p. (255, 255, 255))\<rparr>"

text \<open>The defaults of the argument parser.\<close>

definition default_args :: args where
  "default_args =
     \<lparr>duration = 400, numupdators = 30, prefill = False, numframes = 500, colsep = 4,
      rowsep = 2, width = 800, height = 600, logconf = None, verbose = 0\<rparr>"

definition blank :: "int \<times> int \<Rightarrow> image" where
  "blank sz = \<lparr>isize = sz, pix = (\<lambda>_. (0, 0, 0))\<rparr>"

text \<open>A dropper that can always drop: something to choose from in each list, and a
  brightness for every position its history can reach.\<close>

definition dropper_ready :: "TileDropper \<Rightarrow> bool" where
  "dropper_ready d =
     (td_tile_list d \<noteq> [] \<and> td_thecols d \<noteq> [] \<and> td_therows d \<noteq> []
      \<and> maxlen (td_prev_tiles d) \<le> length (td_brightness d))"

text \<open>A dropper in the middle of a fall, with a full history whose oldest entry is black,
  and a fresh dropper.\<close>

definition falling_dropper :: TileDropper where
  "falling_dropper =
     (TileDropper_init [0, 20] [0, 18] 4 2 [tile16] 0)
       \<lparr>td_curloc := Some (20, 72),
        td_prev_tiles := \<lparr>maxlen = 5, items = [tile16, tile16, tile16, tile16, blank (16, 16)]\<rparr>\<rparr>"

definition fresh_dropper :: TileDropper where
  "fresh_dropper = TileDropper_init [0, 20] [0, 18] 4 2 [tile16] 0"

text \<open>The configuration of the empty-row-anchor scenario: canvas 64 by 64, no separation,
  one dropper, ten frames, at verbosity \<open>v\<close>.\<close>

definition scenario_args :: "int \<Rightarrow> args" where
  "scenario_args v =
     \<lparr>duration = 400, numupdators = 1, prefill = False, numframes = 10, colsep = 0,
      rowsep = 0, width = 64, height = 64, logconf = None, verbose = v\<rparr>"


text \<open>The defaults on a canvas of 40 by 120 pixels, with the pre-fill pass.\<close>

definition small_args :: args where
  "small_args = default_args\<lparr>width := 40, height := 120, prefill := True\<rparr>"

text \<open>Two library instances deliver the same draws on related generators, and dim images
  alike; two outcomes are the same up to the generator left behind.\<close>

definition lib_sim :: "('g \<Rightarrow> 'k \<Rightarrow> bool) \<Rightarrow> 'g lib \<Rightarrow> 'k lib \<Rightarrow> bool" where
  "lib_sim R L1 L2 =
     (enhance L1 = enhance L2
      \<and> (\<forall>n g1 g2. R g1 g2 \<longrightarrow>
             fst (randbelow L1 n g1) = fst (randbelow L2 n g2)
             \<and> R (snd (randbelow L1 n g1)) (snd (randbelow L2 n g2)))
      \<and> (\<forall>n g1 g2. R g1 g2 \<longrightarrow>
             fst (randfloor L1 n g1) = fst (randfloor L2 n g2)
             \<and> R (snd (randfloor L1 n g1)) (snd (randfloor L2 n g2))))"

definition same_outcome ::
  "('g \<Rightarrow> 'k \<Rightarrow> bool) \<Rightarrow> py_error + ('a \<times> 'g) \<Rightarrow> py_error + ('a \<times> 'k) \<Rightarrow> bool" where
  "same_outcome R r1 r2 =
     (case r1 of
        Inl e1 \<Rightarrow> r2 = Inl e1
      | Inr (a1, g1) \<Rightarrow> (case r2 of Inl e2 \<Rightarrow> False | Inr (a2, g2) \<Rightarrow> a1 = a2 \<and> R g1 g2))"

text \<open>A second library instance: the counter of \<open>sample_lib\<close> started at 100.\<close>

definition sample_lib_100 :: "nat lib" where
  "sample_lib_100 =
     \<lparr>randbelow = (\<lambda>n g. ((g - 100) mod n, Suc g)),
      randfloor = (\<lambda>n g. ((g - 100) mod n, Suc g)),
      enhance = (\<lambda>f im. im\<lparr>pix := (\<lambda>p. scale_pixel f (pix im p))\<rparr>),
      fileConfig = (\<lambda>p. Inl Error_file_config)\<rparr>"

section \<open>Properties\<close>

subsection \<open>Images and the store\<close>

lemma paste_isize: "isize (paste dst src box) = isize dst"
  by (simp add: paste_def)

lemma length_heap_paste: "length (heap_paste h r src box) = length h"
  by (simp add: heap_paste_def)

lemma heap_paste_isize: "isize (heap_paste h r src box ! a) = isize (h ! a)"
  by (cases "r < length h"; cases "a = r")
     (simp_all add: heap_paste_def paste_isize list_update_beyond not_less)

lemma heap_paste_other: "a \<noteq> r \<Longrightarrow> heap_paste h r src box ! a = h ! a"
  by (simp add: heap_paste_def)

lemma trail_ops_Nil: "trail_ops L d loc c [] = []"
  by (simp add: trail_ops_def)

lemma trail_ops_Cons:
  "trail_ops L d loc c (e # es) =
     (enhance L (td_brightness d ! c) e, (fst loc, snd loc - int c * (snd (isize e) + td_rowsep d)))
       # trail_ops L d loc (Suc c) es"
proof -
  have "[0 ..< length (e # es)] = 0 # map Suc [0 ..< length es]"
    by (simp add: upt_conv_Cons map_Suc_upt del: upt_Suc)
  then show ?thesis
    by (simp add: trail_ops_def comp_def del: upt_Suc)
qed

lemma paste_entries_eq:
  "td_curloc d = Some loc \<Longrightarrow> c + length es \<le> length (td_brightness d) \<Longrightarrow>
   paste_entries L d es c h
     = Inr (h[td_img d := paste_all (h ! td_img d) (trail_ops L d loc c es)])"
proof (induction es arbitrary: c h)
  case Nil
  then show ?case by (simp add: trail_ops_Nil paste_all_def)
next
  case (Cons e es)
  obtain x y where loc: "loc = (x, y)" by (cases loc)
  have c: "c < length (td_brightness d)" using Cons.prems by simp
  let ?h1 = "heap_paste h (td_img d) (enhance L (td_brightness d ! c) e)
               (x, y - int c * (snd (isize e) + td_rowsep d))"
  have ih: "paste_entries L d es (Suc c) ?h1
     = Inr (?h1[td_img d := paste_all (?h1 ! td_img d) (trail_ops L d loc (Suc c) es)])"
    using Cons.IH[of "Suc c" ?h1] Cons.prems by simp
  show ?case
  proof (cases "td_img d < length h")
    case True
    then show ?thesis using Cons.prems c ih
      by (simp add: loc trail_ops_Cons paste_all_def heap_paste_def)
  next
    case False
    then show ?thesis using Cons.prems c ih
      by (simp add: loc trail_ops_Cons paste_all_def heap_paste_def list_update_beyond not_less)
  qed
qed


lemma update_location_Inr:
  assumes "update_location L d g = Inr (d1, g1)"
  obtains c r g0 where
    "choice L (td_thecols d) g = Inr (c, g0)"
    "choice L (td_therows d) g0 = Inr (r, g1)"
    "d1 = d\<lparr>td_prev_tiles := clear (td_prev_tiles d), td_curloc := Some (c, r)\<rparr>"
  using assms
  by (auto simp: update_location_def Let_def split: sum.splits prod.splits)

lemma choice_Inr_mem: "choice L xs g = Inr (a, g') \<Longrightarrow> a \<in> set xs"
  by (auto simp: choice_def split: if_splits prod.splits)

lemma drop_tile_active_Inr:
  assumes "td_curloc d = Some (x, y)" and "drop_tile L d h g = Inr ((d', h'), g')"
  obtains a where
    "choice L (td_tile_list d) g = Inr (a, g')"
    "paste_entries L (d\<lparr>td_prev_tiles := appendleft a (td_prev_tiles d)\<rparr>)
        (items (appendleft a (td_prev_tiles d))) 0 h = Inr h'"
    "d' = d\<lparr>td_prev_tiles := appendleft a (td_prev_tiles d),
            td_curloc :=
              (if y + snd (isize a) + td_rowsep d
                    > snd (isize (h' ! td_img d))
                      + (snd (isize a) + td_rowsep d) * int (length (td_brightness d))
               then None else Some (x, y + snd (isize a) + td_rowsep d))\<rparr>"
  using assms
  by (auto simp: drop_tile_def Let_def split: sum.splits prod.splits if_splits)

lemma drop_tile_unset:
  assumes "td_curloc d = None" and "update_location L d g = Inr (d1, g1)"
  shows "drop_tile L d h g = drop_tile L d1 h g1"
proof -
  from assms(2) obtain c r where "td_curloc d1 = Some (c, r)"
    by (auto elim: update_location_Inr)
  then show ?thesis using assms by (simp add: drop_tile_def)
qed

lemma drop_tile_unset_Inr:
  assumes "td_curloc d = None" and "drop_tile L d h g = Inr (res, g')"
  obtains d1 g1 where "update_location L d g = Inr (d1, g1)"
  using assms by (auto simp: drop_tile_def split: sum.splits)

lemma paste_entries_isize:
  "paste_entries L d es c h = Inr h' \<Longrightarrow> length h' = length h \<and> isize (h' ! a) = isize (h ! a)"
proof (induction es arbitrary: c h)
  case Nil
  then show ?case by simp
next
  case (Cons e es)
  then show ?case
    by (auto simp: Let_def length_heap_paste heap_paste_isize split: option.splits if_splits)
qed

lemma paste_entries_other:
  "paste_entries L d es c h = Inr h' \<Longrightarrow> a \<noteq> td_img d \<Longrightarrow> h' ! a = h ! a"
proof (induction es arbitrary: c h)
  case Nil
  then show ?case by simp
next
  case (Cons e es)
  then show ?case
    by (auto simp: Let_def heap_paste_other split: option.splits if_splits)
qed

lemma drop_tile_history:
  assumes "drop_tile L d h g = Inr ((d', h'), g')"
  shows "maxlen (td_prev_tiles d') = maxlen (td_prev_tiles d)
         \<and> length (items (td_prev_tiles d')) \<le> maxlen (td_prev_tiles d)"
proof (cases "td_curloc d")
  case None
  from None assms obtain d1 g1 where u: "update_location L d g = Inr (d1, g1)"
    by (auto elim: drop_tile_unset_Inr)
  then obtain c r where d1: "d1 = d\<lparr>td_prev_tiles := clear (td_prev_tiles d), td_curloc := Some (c, r)\<rparr>"
    by (auto elim: update_location_Inr)
  have "drop_tile L d1 h g1 = Inr ((d', h'), g')"
    using drop_tile_unset[OF None u] assms by simp
  moreover have "td_curloc d1 = Some (c, r)" using d1 by simp
  ultimately obtain a where "d' = d1\<lparr>td_prev_tiles := appendleft a (td_prev_tiles d1),
            td_curloc :=
              (if r + snd (isize a) + td_rowsep d1
                    > snd (isize (h' ! td_img d1))
                      + (snd (isize a) + td_rowsep d1) * int (length (td_brightness d1))
               then None else Some (c, r + snd (isize a) + td_rowsep d1))\<rparr>"
    by (auto elim: drop_tile_active_Inr)
  then show ?thesis using d1 by (simp add: appendleft_def clear_def)
next
  case (Some loc)
  obtain x y where "loc = (x, y)" by (cases loc)
  with Some assms obtain a where "d' = d\<lparr>td_prev_tiles := appendleft a (td_prev_tiles d),
            td_curloc :=
              (if y + snd (isize a) + td_rowsep d
                    > snd (isize (h' ! td_img d))
                      + (snd (isize a) + td_rowsep d) * int (length (td_brightness d))
               then None else Some (x, y + snd (isize a) + td_rowsep d))\<rparr>"
    by (auto elim: drop_tile_active_Inr)
  then show ?thesis by (simp add: appendleft_def)
qed

lemma drop_tile_n_history:
  "drop_tile_n L n d h g = Inr ((d', h'), g') \<Longrightarrow> maxlen (td_prev_tiles d) = 5 \<Longrightarrow>
   length (items (td_prev_tiles d)) \<le> 5 \<Longrightarrow>
   maxlen (td_prev_tiles d') = 5 \<and> length (items (td_prev_tiles d')) \<le> 5"
proof (induction n arbitrary: d h g)
  case 0
  then show ?case by simp
next
  case (Suc n)
  from Suc.prems(1) obtain d1 h1 g1 where
    s: "drop_tile L d h g = Inr ((d1, h1), g1)" and r: "drop_tile_n L n d1 h1 g1 = Inr ((d', h'), g')"
    by (auto split: sum.splits)
  from drop_tile_history[OF s] Suc.prems(2)
  have "maxlen (td_prev_tiles d1) = 5" "length (items (td_prev_tiles d1)) \<le> 5" by simp_all
  with Suc.IH[OF r] show ?case by simp
qed

subsection \<open>Progress: a well-formed dropper always drops\<close>

lemma choice_ok:
  assumes "lib_ok L" and "xs \<noteq> []"
  shows "\<exists>a g'. choice L xs g = Inr (a, g')"
proof -
  have "fst (randbelow L (length xs) g) < length xs"
    using assms by (simp add: lib_ok_def)
  then show ?thesis using assms(2)
    by (cases "randbelow L (length xs) g") (simp add: choice_def)
qed

lemma drop_tile_active_eq:
  assumes loc: "td_curloc d = Some (x, y)"
    and ch: "choice L (td_tile_list d) g = Inr (a, g')"
    and len: "maxlen (td_prev_tiles d) \<le> length (td_brightness d)"
  shows "drop_tile L d h g =
     Inr ((d\<lparr>td_prev_tiles := appendleft a (td_prev_tiles d),
              td_curloc :=
                (if y + snd (isize a) + td_rowsep d
                      > snd (isize (h ! td_img d))
                        + (snd (isize a) + td_rowsep d) * int (length (td_brightness d))
                 then None else Some (x, y + snd (isize a) + td_rowsep d))\<rparr>,
           h[td_img d := paste_all (h ! td_img d)
                (trail_ops L d (x, y) 0 (items (appendleft a (td_prev_tiles d))))]), g')"
proof -
  let ?d2 = "d\<lparr>td_prev_tiles := appendleft a (td_prev_tiles d)\<rparr>"
  let ?es = "items (appendleft a (td_prev_tiles d))"
  let ?h' = "h[td_img d := paste_all (h ! td_img d) (trail_ops L d (x, y) 0 ?es)]"
  have "length ?es \<le> length (td_brightness d)"
    using len by (simp add: appendleft_def)
  then have "paste_entries L ?d2 ?es 0 h
      = Inr (h[td_img ?d2 := paste_all (h ! td_img ?d2) (trail_ops L ?d2 (x, y) 0 ?es)])"
    using loc by (intro paste_entries_eq) simp_all
  then have pe: "paste_entries L ?d2 ?es 0 h = Inr ?h'"
    by (simp add: trail_ops_def)
  have sz: "isize (?h' ! td_img d) = isize (h ! td_img d)"
    using paste_entries_isize[OF pe] by simp
  show ?thesis
    using loc ch pe sz by (simp add: drop_tile_def Let_def)
qed

lemma update_location_progress:
  assumes "lib_ok L" and "dropper_ready d"
  shows "\<exists>d1 g1. update_location L d g = Inr (d1, g1)"
proof -
  have "td_thecols d \<noteq> []" "td_therows d \<noteq> []"
    using assms(2) by (simp_all add: dropper_ready_def)
  from choice_ok[OF assms(1) this(1)]
  obtain c g0 where c: "choice L (td_thecols d) g = Inr (c, g0)" by blast
  from choice_ok[OF assms(1) \<open>td_therows d \<noteq> []\<close>]
  obtain r g1 where r: "choice L (td_therows d) g0 = Inr (r, g1)" by blast
  show ?thesis using c r by (simp add: update_location_def)
qed

lemma update_location_ready:
  "update_location L d g = Inr (d1, g1) \<Longrightarrow> dropper_ready d \<Longrightarrow> dropper_ready d1"
  by (auto simp: dropper_ready_def clear_def elim!: update_location_Inr)

lemma update_location_img:
  "update_location L d g = Inr (d1, g1) \<Longrightarrow> td_img d1 = td_img d"
  by (auto elim!: update_location_Inr)

lemma drop_tile_progress:
  assumes "lib_ok L" and "dropper_ready d"
  shows "\<exists>d' h' g'. drop_tile L d h g = Inr ((d', h'), g') \<and> dropper_ready d'
           \<and> td_img d' = td_img d"
proof -
  have act: "\<exists>d' h' g'. drop_tile L e h g0 = Inr ((d', h'), g') \<and> dropper_ready d'
                \<and> td_img d' = td_img e"
    if e: "dropper_ready e" and loc: "td_curloc e = Some (x, y)" for e g0 x y
  proof -
    have "td_tile_list e \<noteq> []" using e by (simp add: dropper_ready_def)
    from choice_ok[OF assms(1) this]
    obtain a g' where ch: "choice L (td_tile_list e) g0 = Inr (a, g')" by blast
    have len: "maxlen (td_prev_tiles e) \<le> length (td_brightness e)"
      using e by (simp add: dropper_ready_def)
    show ?thesis
      using e by (simp add: drop_tile_active_eq[OF loc ch len] dropper_ready_def appendleft_def)
  qed
  show ?thesis
  proof (cases "td_curloc d")
    case None
    from update_location_progress[OF assms]
    obtain d1 g1 where u: "update_location L d g = Inr (d1, g1)" by blast
    then obtain c r where loc: "td_curloc d1 = Some (c, r)"
      by (auto elim: update_location_Inr)
    have "drop_tile L d h g = drop_tile L d1 h g1"
      using None u by (rule drop_tile_unset)
    then show ?thesis
      using act[OF update_location_ready[OF u assms(2)] loc, of g1] update_location_img[OF u]
      by auto
  next
    case (Some loc)
    then show ?thesis using act[OF assms(2), of "fst loc" "snd loc" g] by auto
  qed
qed

lemma drop_tile_n_progress:
  assumes "lib_ok L" and "dropper_ready d"
  shows "\<exists>d' h' g'. drop_tile_n L n d h g = Inr ((d', h'), g')"
  using assms(2)
proof (induction n arbitrary: d h g)
  case 0
  then show ?case by simp
next
  case (Suc n)
  from drop_tile_progress[OF assms(1) Suc.prems]
  obtain d1 h1 g1 where s: "drop_tile L d h g = Inr ((d1, h1), g1)" and r: "dropper_ready d1"
    by blast
  from Suc.IH[OF r, of h1 g1] s show ?case by simp
qed

lemma sample_lib_ok: "lib_ok sample_lib"
  by (simp add: lib_ok_def sample_lib_def)

lemma TileDropper_init_ready:
  "tile_list \<noteq> [] \<Longrightarrow> thecols \<noteq> [] \<Longrightarrow> therows \<noteq> [] \<Longrightarrow>
   dropper_ready (TileDropper_init thecols therows cs rs tile_list img)"
  by (simp add: dropper_ready_def TileDropper_init_def deque_new_def)

subsection \<open>The bounded history\<close>

text \<open>
  Claim C6. A dropper's history of previously dropped tiles never holds more than five
  tiles: the constructor makes an empty history bounded by 5, and from any dropper whose
  history obeys the bound, \<^verbatim>\<open>update_location\<close> and any number \<open>n\<close> of successive
  \<^verbatim>\<open>drop_tile\<close> calls that return leave a history that obeys it.
\<close>

theorem history_never_exceeds_5:
  "maxlen (td_prev_tiles (TileDropper_init thecols therows cs rs tiles img)) = 5
   \<and> items (td_prev_tiles (TileDropper_init thecols therows cs rs tiles img)) = []
   \<and> (maxlen (td_prev_tiles d) = 5 \<and> length (items (td_prev_tiles d)) \<le> 5 \<longrightarrow>
        (\<forall>d1 g1. update_location L d g = Inr (d1, g1) \<longrightarrow>
            maxlen (td_prev_tiles d1) = 5 \<and> length (items (td_prev_tiles d1)) \<le> 5)
        \<and> (\<forall>n d' h' g'. drop_tile_n L n d h g = Inr ((d', h'), g') \<longrightarrow>
            maxlen (td_prev_tiles d') = 5 \<and> length (items (td_prev_tiles d')) \<le> 5))"
proof (intro conjI impI allI)
  show "maxlen (td_prev_tiles (TileDropper_init thecols therows cs rs tiles img)) = 5"
    by (simp add: TileDropper_init_def deque_new_def)
  show "items (td_prev_tiles (TileDropper_init thecols therows cs rs tiles img)) = []"
    by (simp add: TileDropper_init_def deque_new_def)
next
  fix d1 g1
  assume "maxlen (td_prev_tiles d) = 5 \<and> length (items (td_prev_tiles d)) \<le> 5"
    and u: "update_location L d g = Inr (d1, g1)"
  then show "maxlen (td_prev_tiles d1) = 5" "length (items (td_prev_tiles d1)) \<le> 5"
    by (auto simp: clear_def elim!: update_location_Inr)
next
  fix n d' h' g'
  assume ok: "maxlen (td_prev_tiles d) = 5 \<and> length (items (td_prev_tiles d)) \<le> 5"
    and r: "drop_tile_n L n d h g = Inr ((d', h'), g')"
  from drop_tile_n_history[OF r] ok
  show "maxlen (td_prev_tiles d') = 5" "length (items (td_prev_tiles d')) \<le> 5"
    by simp_all
qed

theorem history_never_exceeds_5_witness:
  "\<exists>d' h' g'.
     drop_tile_n sample_lib 7 (TileDropper_init [0, 20] [0, 18] 4 2 [tile16] 0)
       [blank (800, 600)] 0 = Inr ((d', h'), g')
     \<and> length (items (td_prev_tiles d')) \<le> 5"
proof -
  let ?d = "TileDropper_init [0, 20] [0, 18] 4 2 [tile16] 0"
  have "dropper_ready ?d" by (rule TileDropper_init_ready) simp_all
  from drop_tile_n_progress[OF sample_lib_ok this]
  obtain d' h' g' where
    r: "drop_tile_n sample_lib 7 ?d [blank (800, 600)] 0 = Inr ((d', h'), g')"
    by blast
  have ok: "maxlen (td_prev_tiles ?d) = 5 \<and> length (items (td_prev_tiles ?d)) \<le> 5"
    by (simp add: TileDropper_init_def deque_new_def)
  from history_never_exceeds_5[of _ _ _ _ _ _ ?d sample_lib 0 "[blank (800, 600)]"] ok r
  have "length (items (td_prev_tiles d')) \<le> 5" by blast
  with r show ?thesis by blast
qed

subsection \<open>One drop of an active dropper\<close>

lemma upt_5: "[0 ..< 5] = [0, 1, 2, 3, 4::nat]"
  by (simp add: upt_conv_Cons)

lemma falling_dropper_choice: "choice sample_lib (td_tile_list falling_dropper) 0 = Inr (tile16, 1)"
  by (simp add: choice_def sample_lib_def falling_dropper_def TileDropper_init_def)

lemma falling_dropper_drop:
  "\<exists>d' h'. drop_tile sample_lib falling_dropper [blank (800, 600)] 0 = Inr ((d', h'), 1)
      \<and> items (td_prev_tiles d') = [tile16, tile16, tile16, tile16, tile16]
      \<and> td_curloc d' = Some (20, 90)"
proof -
  have loc: "td_curloc falling_dropper = Some (20, 72)"
    by (simp add: falling_dropper_def)
  have len: "maxlen (td_prev_tiles falling_dropper) \<le> length (td_brightness falling_dropper)"
    by (simp add: falling_dropper_def TileDropper_init_def)
  show ?thesis
    unfolding drop_tile_active_eq[OF loc falling_dropper_choice len]
    by (simp add: falling_dropper_def TileDropper_init_def appendleft_def tile16_def blank_def)
qed

text \<open>
  Claim C4. A \<^verbatim>\<open>drop_tile\<close> call on an active dropper at \<open>(dropX, dropY)\<close> that
  returns has chosen a tile from the tile list; the history afterwards is the chosen tile
  in front of the old history, cut to five entries; the canvas has received, for each
  index \<open>i\<close> of that history in order, the entry dimmed by the \<open>i\<close>-th value of
  1.0, 0.8, 0.6, 0.4, 0.2 at \<open>(dropX, dropY - i * (entry height + rowsep))\<close>; and the dropper
  is unset exactly when \<open>dropY + (tile height + rowsep)\<close> exceeds the canvas height plus
  \<open>(tile height + rowsep) * 5\<close>, and otherwise stands at that new vertical coordinate.
\<close>

theorem drop_tile_active_step:
  assumes "td_curloc d = Some (dropX, dropY)"
    and "td_brightness d = [1, 4 / 5, 3 / 5, 2 / 5, 1 / 5]"
    and "maxlen (td_prev_tiles d) = 5"
    and "drop_tile L d h g = Inr ((d', h'), g')"
  shows "\<exists>a_tile. choice L (td_tile_list d) g = Inr (a_tile, g')
     \<and> items (td_prev_tiles d') = take 5 (a_tile # items (td_prev_tiles d))
     \<and> h' = h[td_img d := paste_all (h ! td_img d)
            (map (\<lambda>i. (enhance L ([1, 4 / 5, 3 / 5, 2 / 5, 1 / 5] ! i) (items (td_prev_tiles d') ! i),
                       (dropX, dropY - int i * (snd (isize (items (td_prev_tiles d') ! i)) + td_rowsep d))))
               [0 ..< length (items (td_prev_tiles d'))])]
     \<and> td_curloc d' =
         (if dropY + (snd (isize a_tile) + td_rowsep d)
               > snd (isize (h ! td_img d)) + (snd (isize a_tile) + td_rowsep d) * 5
          then None else Some (dropX, dropY + (snd (isize a_tile) + td_rowsep d)))"
proof -
  from assms(1,4) obtain a where ch: "choice L (td_tile_list d) g = Inr (a, g')"
    by (auto elim: drop_tile_active_Inr)
  have len: "maxlen (td_prev_tiles d) \<le> length (td_brightness d)"
    using assms(2,3) by simp
  have "Inr ((d', h'), g') = drop_tile L d h g" using assms(4) by simp
  also note drop_tile_active_eq[OF assms(1) ch len]
  finally show ?thesis
    using ch assms(2,3) by (simp add: appendleft_def trail_ops_def add.assoc)
qed

theorem drop_tile_active_step_witness:
  "\<exists>d' h'. drop_tile sample_lib falling_dropper [blank (800, 600)] 0 = Inr ((d', h'), 1)
     \<and> items (td_prev_tiles d') = [tile16, tile16, tile16, tile16, tile16]
     \<and> td_curloc d' = Some (20, 90)
     \<and> h' = [paste_all (blank (800, 600))
            (map (\<lambda>(f, y). (enhance sample_lib f tile16, (20, y)))
               [(1, 72), (4 / 5, 54), (3 / 5, 36), (2 / 5, 18), (1 / 5, 0)])]"
proof -
  obtain d' h' where
    r: "drop_tile sample_lib falling_dropper [blank (800, 600)] 0 = Inr ((d', h'), 1)"
    and i: "items (td_prev_tiles d') = [tile16, tile16, tile16, tile16, tile16]"
    and l: "td_curloc d' = Some (20, 90)"
    using falling_dropper_drop by blast
  have "td_curloc falling_dropper = Some (20, 72)"
    "td_brightness falling_dropper = [1, 4 / 5, 3 / 5, 2 / 5, 1 / 5]"
    "maxlen (td_prev_tiles falling_dropper) = 5"
    by (simp_all add: falling_dropper_def TileDropper_init_def)
  from drop_tile_active_step[OF this r]
  have "h' = [blank (800, 600)][td_img falling_dropper := paste_all ([blank (800, 600)] ! td_img falling_dropper)
            (map (\<lambda>i. (enhance sample_lib ([1, 4 / 5, 3 / 5, 2 / 5, 1 / 5] ! i) (items (td_prev_tiles d') ! i),
                       (20, 72 - int i * (snd (isize (items (td_prev_tiles d') ! i)) + td_rowsep falling_dropper))))
               [0 ..< length (items (td_prev_tiles d'))])]"
    by blast
  then have "h' = [paste_all (blank (800, 600))
            (map (\<lambda>(f, y). (enhance sample_lib f tile16, (20, y)))
               [(1, 72), (4 / 5, 54), (3 / 5, 36), (2 / 5, 18), (1 / 5, 0)])]"
    by (simp add: i upt_5 falling_dropper_def TileDropper_init_def tile16_def)
  with r i l show ?thesis by blast
qed

subsection \<open>The column of a falling dropper\<close>

text \<open>
  Claim C10. A \<^verbatim>\<open>drop_tile\<close> call that starts with a drop location and ends with a drop
  location leaves the horizontal coordinate as it was (and moves the vertical coordinate
  down by the chosen tile's height plus the row separation).
\<close>

theorem drop_tile_keeps_column:
  assumes "td_curloc d = Some (x, y)"
    and "drop_tile L d h g = Inr ((d', h'), g')"
    and "td_curloc d' = Some (x', y')"
  shows "x' = x \<and> (\<exists>a_tile \<in> set (td_tile_list d). y' = y + snd (isize a_tile) + td_rowsep d)"
proof -
  from assms(1,2) obtain a where ch: "choice L (td_tile_list d) g = Inr (a, g')"
    and d': "d' = d\<lparr>td_prev_tiles := appendleft a (td_prev_tiles d),
            td_curloc :=
              (if y + snd (isize a) + td_rowsep d
                    > snd (isize (h' ! td_img d))
                      + (snd (isize a) + td_rowsep d) * int (length (td_brightness d))
               then None else Some (x, y + snd (isize a) + td_rowsep d))\<rparr>"
    by (auto elim: drop_tile_active_Inr)
  have "a \<in> set (td_tile_list d)" using ch by (rule choice_Inr_mem)
  moreover have "x' = x \<and> y' = y + snd (isize a) + td_rowsep d"
    using assms(3) d' by (simp split: if_splits)
  ultimately show ?thesis by blast
qed

theorem drop_tile_keeps_column_witness:
  "\<exists>d' h' g' y'. td_curloc falling_dropper = Some (20, 72)
     \<and> drop_tile sample_lib falling_dropper [blank (800, 600)] 0 = Inr ((d', h'), g')
     \<and> td_curloc d' = Some (20, y')"
proof -
  obtain d' h' where
    r: "drop_tile sample_lib falling_dropper [blank (800, 600)] 0 = Inr ((d', h'), 1)"
    and l: "td_curloc d' = Some (20, 90)"
    using falling_dropper_drop by blast
  have loc: "td_curloc falling_dropper = Some (20, 72)"
    by (simp add: falling_dropper_def)
  from drop_tile_keeps_column[OF loc r l] loc r l show ?thesis by blast
qed

subsection \<open>Relocation\<close>





subsection \<open>\<^verbatim>\<open>range\<close> with a positive step\<close>

lemma le_div_iff_mult_le:
  fixes step :: int
  assumes "0 < step"
  shows "m \<le> a div step \<longleftrightarrow> m * step \<le> a"
proof
  assume "m \<le> a div step"
  then have "m * step \<le> a div step * step"
    using assms by (simp add: mult_right_mono)
  also have "\<dots> = a - a mod step" by (simp add: minus_mod_eq_div_mult)
  also have "\<dots> \<le> a" using assms by simp
  finally show "m * step \<le> a" .
next
  assume "m * step \<le> a"
  from zdiv_mono1[OF this assms] show "m \<le> a div step"
    using assms by simp
qed

lemma range_count_iff:
  fixes step stop :: int
  assumes "0 < step"
  shows "k < (if 0 < stop then nat ((stop - 0 - 1) div step + 1) else 0) \<longleftrightarrow> int k * step < stop"
proof (cases "0 < stop")
  case True
  have q: "0 \<le> (stop - 1) div step" using True assms by (simp add: pos_imp_zdiv_nonneg_iff)
  have "k < nat ((stop - 1) div step + 1) \<longleftrightarrow> int k \<le> (stop - 1) div step"
    using q by linarith
  also have "\<dots> \<longleftrightarrow> int k * step \<le> stop - 1"
    using assms by (rule le_div_iff_mult_le)
  finally show ?thesis using True by simp
next
  case False
  have "0 \<le> int k * step" using assms by simp
  with False show ?thesis by simp
qed

lemma py_range_pos:
  assumes "0 < step"
  shows "\<exists>xs. py_range 0 stop step = Inr xs
           \<and> set xs = {x. 0 \<le> x \<and> x < stop \<and> step dvd x} \<and> sorted_wrt (<) xs"
proof -
  let ?n = "if 0 < stop then nat ((stop - 0 - 1) div step + 1) else 0"
  let ?xs = "map (\<lambda>k. 0 + int k * step) [0 ..< ?n]"
  have r: "py_range 0 stop step = Inr ?xs"
    using assms by (simp add: py_range_def)
  have "set ?xs = {x. 0 \<le> x \<and> x < stop \<and> step dvd x}"
  proof (intro set_eqI iffI)
    fix x assume "x \<in> set ?xs"
    then obtain k where k: "k < ?n" and x: "x = int k * step" by auto
    from k have "int k * step < stop" using range_count_iff[OF assms] by blast
    with x assms show "x \<in> {x. 0 \<le> x \<and> x < stop \<and> step dvd x}" by simp
  next
    fix x assume "x \<in> {x. 0 \<le> x \<and> x < stop \<and> step dvd x}"
    then have x0: "0 \<le> x" and xs: "x < stop" and "step dvd x" by simp_all
    then obtain m where m: "x = m * step" by (auto simp: dvd_def mult.commute)
    have "0 \<le> m" using x0 m assms by (simp add: zero_le_mult_iff)
    then obtain k where mk: "m = int k" by (metis nonneg_int_cases)
    have "k < ?n" using range_count_iff[OF assms, of k stop] xs m mk by simp
    then have "int k * step \<in> (\<lambda>k. 0 + int k * step) ` {0 ..< ?n}" by (intro image_eqI[of _ _ k]) simp_all
    then have "int k * step \<in> set ?xs" by (simp only: set_map set_upt)
    then show "x \<in> set ?xs" using m mk by simp
  qed
  moreover have "sorted_wrt (<) ?xs"
    using assms by (simp add: sorted_wrt_map sorted_wrt_iff_nth_less del: upt_Suc)
  ultimately show ?thesis using r by blast
qed

subsection \<open>The pre-fill pass changes only the pixels of the canvas\<close>

lemma fill_ys_heap:
  "fill_ys L img tile_list glowing x ys h g = Inr (h', g') \<Longrightarrow>
   length h' = length h \<and> isize (h' ! a) = isize (h ! a) \<and> (a \<noteq> img \<longrightarrow> h' ! a = h ! a)"
proof (induction ys arbitrary: h g)
  case Nil
  then show ?case by simp
next
  case (Cons y ys)
  then show ?case
    by (auto simp: Let_def length_heap_paste heap_paste_isize heap_paste_other
        split: sum.splits prod.splits)
qed

lemma fill_xs_heap:
  "fill_xs L theargs img tile_list glowing xs h g = Inr (h', g') \<Longrightarrow>
   length h' = length h \<and> isize (h' ! a) = isize (h ! a) \<and> (a \<noteq> img \<longrightarrow> h' ! a = h ! a)"
proof (induction xs arbitrary: h g)
  case Nil
  then show ?case by simp
next
  case (Cons x xs)
  from Cons.prems obtain ys h1 g1 where
    f: "fill_ys L img tile_list glowing x ys h g = Inr (h1, g1)"
    and r: "fill_xs L theargs img tile_list glowing xs h1 g1 = Inr (h', g')"
    by (auto split: sum.splits prod.splits)
  from fill_ys_heap[OF f, of a] Cons.IH[OF r] show ?case by simp
qed

lemma randomly_fill_image_heap:
  assumes "randomly_fill_image L theargs img tile_list h g = Inr (h', g')"
  shows "length h' = length h \<and> isize (h' ! a) = isize (h ! a) \<and> (a \<noteq> img \<longrightarrow> h' ! a = h ! a)"
proof -
  from assms obtain glowing xs g1 where
    "fill_xs L theargs img tile_list glowing xs h g1 = Inr (h', g')"
    by (auto simp: randomly_fill_image_def split: sum.splits prod.splits)
  then show ?thesis by (rule fill_xs_heap)
qed

subsection \<open>The drop anchor grid\<close>


lemma run_setup_no_prefill:
  assumes "\<not> prefill theargs" and "0 \<le> width theargs" and "0 \<le> height theargs"
    and "anchor_grid theargs tile_list (width theargs, height theargs) = Inr (thecols, therows)"
  shows "run_setup L theargs tile_list g
     = Inr ((make_droppers theargs thecols therows tile_list 0,
             [blank (width theargs, height theargs)]), g)"
  using assms by (simp add: run_setup_def Image_new_def blank_def)




subsection \<open>A run without frames\<close>

lemma run_no_frames:
  assumes "run_setup L theargs tile_list g = Inr ((d_list, h1), g1)"
    and "numframes theargs \<le> 0"
  shows "run L theargs tile_list g = Inl IndexError_list_index"
  using assms by (simp add: run_def save_gif_def)

lemma main_run_fails:
  assumes "logconf theargs = None" and "run L theargs tile_list g = Inl e"
  shows "main L theargs tile_list g
     = \<lparr>exit_status = 2, logged = (if 1 \<le> verbose theargs then [e] else []), written = None\<rparr>"
  using assms by (simp add: main_def setup_logging_def log_exception_def)

text \<open>
  Claim C1, evaluated at the defaults with \<^verbatim>\<open>--numframes 0\<close> and one 16 by 16 tile: the
  frame list stays empty, \<^verbatim>\<open>img_list[0]\<close> raises IndexError, and \<^verbatim>\<open>main\<close> returns 2.
\<close>

theorem run_numframes_0_index_error:
  "run L (default_args\<lparr>numframes := 0\<rparr>) [tile16] g = Inl IndexError_list_index
   \<and> exit_status (main L (default_args\<lparr>numframes := 0\<rparr>) [tile16] g) = 2"
proof -
  let ?A = "default_args\<lparr>numframes := 0\<rparr>"
  have a: "anchor_grid ?A [tile16] (width ?A, height ?A)
     = Inr (map (\<lambda>k. int k * 20) [0 ..< 40], map (\<lambda>k. int k * 18) [0 ..< 29])"
    by (simp add: anchor_grid_def default_args_def tile16_def py_range_def del: upt_Suc)
  have "run_setup L ?A [tile16] g
     = Inr ((make_droppers ?A (map (\<lambda>k. int k * 20) [0 ..< 40])
               (map (\<lambda>k. int k * 18) [0 ..< 29]) [tile16] 0,
             [blank (width ?A, height ?A)]), g)"
    by (rule run_setup_no_prefill[OF _ _ _ a]) (simp_all add: default_args_def)
  then have r: "run L ?A [tile16] g = Inl IndexError_list_index"
    by (rule run_no_frames) simp
  have "logconf ?A = None" by (simp add: default_args_def)
  from main_run_fails[OF this r] r show ?thesis by simp
qed

subsection \<open>An empty list of row anchors\<close>

lemma drop_tile_no_rows:
  assumes "lib_ok L" and "td_curloc d = None" and "td_thecols d \<noteq> []" and "td_therows d = []"
  shows "drop_tile L d h g = Inl IndexError_empty_choice"
proof -
  from choice_ok[OF assms(1,3)] obtain c g0 where
    "choice L (td_thecols d) g = Inr (c, g0)" by blast
  moreover have "choice L (td_therows d) g0 = Inl IndexError_empty_choice"
    using assms(4) by (simp add: choice_def)
  ultimately show ?thesis using assms(2)
    by (simp add: drop_tile_def update_location_def clear_def)
qed

lemma scenario_anchor_grid:
  assumes "length tiles = 4" and "\<forall>t \<in> set tiles. isize t = (16, 16)"
  shows "anchor_grid (scenario_args v) tiles (64, 64) = Inr ([0, 16, 32, 48], [])"
proof -
  from assms(1) obtain t0 rest where t: "tiles = t0 # rest" by (cases tiles) auto
  with assms(2) have "isize t0 = (16, 16)" by simp
  then show ?thesis
    by (simp add: t anchor_grid_def scenario_args_def py_range_def upt_conv_Cons)
qed

lemma scenario_run:
  assumes "lib_ok L" and "length tiles = 4" and "\<forall>t \<in> set tiles. isize t = (16, 16)"
  shows "run L (scenario_args v) tiles g = Inl IndexError_empty_choice"
proof -
  let ?A = "scenario_args v"
  let ?d = "TileDropper_init [0, 16, 32, 48] [] 0 0 tiles 0"
  have a: "anchor_grid ?A tiles (width ?A, height ?A) = Inr ([0, 16, 32, 48], [])"
    using scenario_anchor_grid[OF assms(2,3), of v] by (simp add: scenario_args_def)
  have "run_setup L ?A tiles g
     = Inr ((make_droppers ?A [0, 16, 32, 48] [] tiles 0, [blank (width ?A, height ?A)]), g)"
    by (rule run_setup_no_prefill[OF _ _ _ a]) (simp_all add: scenario_args_def)
  then have s: "run_setup L ?A tiles g = Inr (([?d], [blank (64, 64)]), g)"
    by (simp add: make_droppers_def scenario_args_def)
  have "drop_tile L ?d [blank (64, 64)] g = Inl IndexError_empty_choice"
    by (rule drop_tile_no_rows[OF assms(1)]) (simp_all add: TileDropper_init_def)
  then have fl: "frames_loop L (Suc n) [?d] 0 [] [blank (64, 64)] g = Inl IndexError_empty_choice"
    for n by simp
  have "nat (numframes ?A) = Suc 9" by (simp add: scenario_args_def)
  then have "frames_loop L (nat (numframes ?A)) [?d] 0 [] [blank (64, 64)] g
      = Inl IndexError_empty_choice"
    by (simp only: fl)
  then show ?thesis using s by (simp add: run_def)
qed

text \<open>
  Claim C2, as the program has it. With four tiles of 16 by 16 pixels, a 64 by 64 canvas,
  no separation, one dropper and ten frames, the column anchors are 0, 16, 32, 48 and
  there is no row anchor. Nothing checks this at setup: the first drop raises IndexError
  when it chooses from the empty list of row anchors. \<^verbatim>\<open>main\<close> catches it, returns exit
  status 2 and hands the exception to the logger, which emits it when the verbosity is
  at least 1 and not otherwise.
\<close>

theorem empty_row_anchors_exit_2:
  assumes "lib_ok L" and "length tiles = 4" and "\<forall>t \<in> set tiles. isize t = (16, 16)"
  shows "anchor_grid (scenario_args v) tiles (64, 64) = Inr ([0, 16, 32, 48], [])
     \<and> run L (scenario_args v) tiles g = Inl IndexError_empty_choice
     \<and> main L (scenario_args v) tiles g
         = \<lparr>exit_status = 2,
            logged = (if 1 \<le> v then [IndexError_empty_choice] else []),
            written = None\<rparr>"
proof -
  have "logconf (scenario_args v) = None" "verbose (scenario_args v) = v"
    by (simp_all add: scenario_args_def)
  with main_run_fails[OF _ scenario_run[OF assms], of v g]
    scenario_anchor_grid[OF assms(2,3)] scenario_run[OF assms]
  show ?thesis by simp
qed

theorem empty_row_anchors_exit_2_witness:
  "lib_ok sample_lib \<and> length (replicate 4 tile16) = 4
   \<and> run sample_lib (scenario_args 1) (replicate 4 tile16) 0 = Inl IndexError_empty_choice
   \<and> main sample_lib (scenario_args 1) (replicate 4 tile16) 0
       = \<lparr>exit_status = 2, logged = [IndexError_empty_choice], written = None\<rparr>"
proof -
  have "length (replicate 4 tile16) = 4" "\<forall>t \<in> set (replicate 4 tile16). isize t = (16, 16)"
    by (simp_all add: tile16_def)
  from empty_row_anchors_exit_2[OF sample_lib_ok this, of 1 0] sample_lib_ok
  show ?thesis by simp
qed

text \<open>At the default verbosity 0 the failure of the scenario is not logged.\<close>

theorem empty_row_anchors_not_logged:
  "exit_status (main sample_lib (scenario_args 0) (replicate 4 tile16) 0) = 2
   \<and> logged (main sample_lib (scenario_args 0) (replicate 4 tile16) 0) = []"
proof -
  have "length (replicate 4 tile16) = 4" "\<forall>t \<in> set (replicate 4 tile16). isize t = (16, 16)"
    by (simp_all add: tile16_def)
  from scenario_run[OF sample_lib_ok this, of 0 0]
  have "run sample_lib (scenario_args 0) (replicate 4 tile16) 0 = Inl IndexError_empty_choice" .
  moreover have "logconf (scenario_args 0) = None" "verbose (scenario_args 0) = 0"
    by (simp_all add: scenario_args_def)
  ultimately show ?thesis
    using main_run_fails[of "scenario_args 0" sample_lib "replicate 4 tile16" 0]
    by simp
qed

subsection \<open>The store during the frame loop\<close>

lemma drop_tile_heap:
  assumes "drop_tile L d h g = Inr ((d', h'), g')"
  shows "length h' = length h \<and> td_img d' = td_img d \<and> (a \<noteq> td_img d \<longrightarrow> h' ! a = h ! a)"
proof -
  have act: "length h' = length h \<and> td_img d' = td_img e \<and> (a \<noteq> td_img e \<longrightarrow> h' ! a = h ! a)"
    if loc: "td_curloc e = Some (x, y)" and dr: "drop_tile L e h g0 = Inr ((d', h'), g')"
    for e x y g0
  proof -
    from loc dr obtain t where
      pe: "paste_entries L (e\<lparr>td_prev_tiles := appendleft t (td_prev_tiles e)\<rparr>)
            (items (appendleft t (td_prev_tiles e))) 0 h = Inr h'"
      and d': "d' = e\<lparr>td_prev_tiles := appendleft t (td_prev_tiles e),
            td_curloc :=
              (if y + snd (isize t) + td_rowsep e
                    > snd (isize (h' ! td_img e))
                      + (snd (isize t) + td_rowsep e) * int (length (td_brightness e))
               then None else Some (x, y + snd (isize t) + td_rowsep e))\<rparr>"
      by (rule drop_tile_active_Inr)
    from paste_entries_isize[OF pe, of a] paste_entries_other[OF pe, of a] d'
    show ?thesis by simp
  qed
  show ?thesis
  proof (cases "td_curloc d")
    case None
    with assms obtain d1 g1 where u: "update_location L d g = Inr (d1, g1)"
      by (auto elim: drop_tile_unset_Inr)
    then obtain c r where loc: "td_curloc d1 = Some (c, r)"
      by (auto elim: update_location_Inr)
    have "drop_tile L d1 h g1 = Inr ((d', h'), g')"
      using drop_tile_unset[OF None u] assms by simp
    from act[OF loc this] update_location_img[OF u] show ?thesis by simp
  next
    case (Some loc)
    then have "td_curloc d = Some (fst loc, snd loc)" by simp
    from act[OF this assms] show ?thesis .
  qed
qed

lemma drop_all_heap:
  "drop_all L ds h g = Inr ((ds', h'), g') \<Longrightarrow> \<forall>d \<in> set ds. td_img d = img \<Longrightarrow>
   length h' = length h \<and> (\<forall>d \<in> set ds'. td_img d = img) \<and> (a \<noteq> img \<longrightarrow> h' ! a = h ! a)"
proof (induction ds arbitrary: h g ds')
  case Nil
  then show ?case by simp
next
  case (Cons d ds)
  from Cons.prems(1) obtain d1 h1 g1 ds1 where
    s: "drop_tile L d h g = Inr ((d1, h1), g1)"
    and r: "drop_all L ds h1 g1 = Inr ((ds1, h'), g')" and e: "ds' = d1 # ds1"
    by (auto split: sum.splits prod.splits)
  from drop_tile_heap[OF s, of a] Cons.IH[OF r] Cons.prems(2) e show ?case by simp
qed

lemma frames_loop_add:
  "frames_loop L (m + k) ds img il h g =
     (case frames_loop L m ds img il h g of
        Inl e \<Rightarrow> Inl e
      | Inr ((il1, ds1, h1), g1) \<Rightarrow> frames_loop L k ds1 img il1 h1 g1)"
proof (induction m arbitrary: ds il h g)
  case 0
  then show ?case by simp
next
  case (Suc m)
  then show ?case by (simp add: heap_copy_def split: sum.splits prod.splits)
qed

lemma frames_loop_heap:
  "frames_loop L n ds img il h g = Inr ((il', ds', h'), g') \<Longrightarrow>
   \<forall>d \<in> set ds. td_img d = img \<Longrightarrow>
   length h' = length h + n \<and> il' = il @ [length h ..< length h + n]
   \<and> (\<forall>d \<in> set ds'. td_img d = img)
   \<and> (a < length h \<longrightarrow> a \<noteq> img \<longrightarrow> h' ! a = h ! a)"
proof (induction n arbitrary: ds il h g)
  case 0
  then show ?case by simp
next
  case (Suc n)
  from Suc.prems(1) obtain ds1 h1 g1 where
    s: "drop_all L ds h g = Inr ((ds1, h1), g1)"
    and r: "frames_loop L n ds1 img (il @ [length h1]) (h1 @ [h1 ! img]) g1
              = Inr ((il', ds', h'), g')"
    by (auto simp: heap_copy_def split: sum.splits prod.splits)
  from drop_all_heap[OF s Suc.prems(2), of a]
  have l: "length h1 = length h" and i: "\<forall>d \<in> set ds1. td_img d = img"
    and o: "a \<noteq> img \<longrightarrow> h1 ! a = h ! a" by simp_all
  from Suc.IH[OF r i] l o show ?case
    by (auto simp: upt_conv_Cons nth_append simp del: upt_Suc)
qed

lemma frames_loop_last:
  assumes "frames_loop L (Suc i) ds img il h g = Inr ((il1, ds1, h1), g1)"
    and "\<forall>d \<in> set ds. td_img d = img" and "img < length h"
  shows "length h1 = length h + Suc i \<and> il1 = il @ [length h ..< length h + Suc i]
         \<and> h1 ! (length h + i) = h1 ! img"
proof -
  have "frames_loop L (i + 1) ds img il h g = Inr ((il1, ds1, h1), g1)"
    using assms(1) by simp
  then obtain il0 ds0 h0 g0 where
    a: "frames_loop L i ds img il h g = Inr ((il0, ds0, h0), g0)"
    and b: "frames_loop L 1 ds0 img il0 h0 g0 = Inr ((il1, ds1, h1), g1)"
    unfolding frames_loop_add by (auto split: sum.splits prod.splits)
  from frames_loop_heap[OF a assms(2)]
  have l0: "length h0 = length h + i" and i0: "\<forall>d \<in> set ds0. td_img d = img" by simp_all
  from b obtain h0' where
    s: "drop_all L ds0 h0 g0 = Inr ((ds1, h0'), g1)" and h1: "h1 = h0' @ [h0' ! img]"
    by (auto simp: heap_copy_def split: sum.splits prod.splits)
  from drop_all_heap[OF s i0] have l0': "length h0' = length h0" by simp
  have "h1 ! (length h + i) = h1 ! img"
    using h1 l0 l0' assms(3) by (simp add: nth_append)
  with frames_loop_heap[OF assms(1,2)] show ?thesis by simp
qed

lemma drop_all_progress:
  assumes "lib_ok L"
  shows "\<forall>d \<in> set ds. dropper_ready d \<Longrightarrow>
    \<exists>ds' h' g'. drop_all L ds h g = Inr ((ds', h'), g') \<and> (\<forall>d \<in> set ds'. dropper_ready d)"
proof (induction ds arbitrary: h g)
  case Nil
  then show ?case by simp
next
  case (Cons d ds)
  then have "dropper_ready d" by simp
  from drop_tile_progress[OF assms this, of h g] obtain d1 h1 g1 where
    s: "drop_tile L d h g = Inr ((d1, h1), g1)" and r: "dropper_ready d1" by blast
  from Cons.IH[of h1 g1] Cons.prems obtain ds1 h2 g2 where
    "drop_all L ds h1 g1 = Inr ((ds1, h2), g2)" "\<forall>d \<in> set ds1. dropper_ready d"
    by auto
  with s r show ?case by simp
qed

lemma frames_loop_progress:
  assumes "lib_ok L"
  shows "\<forall>d \<in> set ds. dropper_ready d \<Longrightarrow>
    \<exists>il' ds' h' g'. frames_loop L n ds img il h g = Inr ((il', ds', h'), g')"
proof (induction n arbitrary: ds il h g)
  case 0
  then show ?case by simp
next
  case (Suc n)
  from drop_all_progress[OF assms Suc.prems, of h g] obtain ds1 h1 g1 where
    s: "drop_all L ds h g = Inr ((ds1, h1), g1)" and r: "\<forall>d \<in> set ds1. dropper_ready d"
    by blast
  from Suc.IH[OF r] s show ?case by (simp add: heap_copy_def)
qed

text \<open>
  Claim C9. In the frame loop of \<^verbatim>\<open>run\<close>, started with an empty frame list on a store
  that holds the canvas and with droppers that all draw on that canvas: when \<open>n\<close> frames
  have been made, the frame list holds \<open>n\<close> distinct references, none of them the canvas,
  and for every \<open>i < n\<close> the image that the \<open>i\<close>-th reference holds in the final store is
  the canvas as it was when frame \<open>i\<close> was completed (the canvas in the store that the
  loop reaches after \<open>i + 1\<close> frames).
\<close>

theorem snapshots_are_independent:
  assumes "frames_loop L n d_list img [] h g = Inr ((img_list, d_list', h'), g')"
    and "img < length h" and "\<forall>d \<in> set d_list. td_img d = img" and "i < n"
  shows "length img_list = n \<and> distinct img_list \<and> img \<notin> set img_list
     \<and> (\<exists>il ds hi gi. frames_loop L (Suc i) d_list img [] h g = Inr ((il, ds, hi), gi)
           \<and> h' ! (img_list ! i) = hi ! img)"
proof -
  from frames_loop_heap[OF assms(1,3)]
  have il: "img_list = [length h ..< length h + n]" by simp
  obtain k where n: "n = Suc i + k" using assms(4) by (metis less_iff_Suc_add add_Suc)
  from assms(1) obtain il1 ds1 h1 g1 where
    a: "frames_loop L (Suc i) d_list img [] h g = Inr ((il1, ds1, h1), g1)"
    and b: "frames_loop L k ds1 img il1 h1 g1 = Inr ((img_list, d_list', h'), g')"
    unfolding n frames_loop_add by (auto split: sum.splits prod.splits)
  from frames_loop_last[OF a assms(3,2)]
  have l1: "length h1 = length h + Suc i" and e: "h1 ! (length h + i) = h1 ! img" by simp_all
  from frames_loop_heap[OF a assms(3)] have i1: "\<forall>d \<in> set ds1. td_img d = img" by simp
  from frames_loop_heap[OF b i1, of "length h + i"] l1 assms(2)
  have "h' ! (length h + i) = h1 ! (length h + i)" by simp
  with e have "h' ! (img_list ! i) = h1 ! img"
    using il assms(4) by simp
  with a il assms(2) show ?thesis by auto
qed

theorem snapshots_are_independent_witness:
  "\<exists>img_list d_list' h' g' il ds hi gi.
     frames_loop sample_lib 3 [fresh_dropper, fresh_dropper] 0 [] [blank (800, 600)] 0
       = Inr ((img_list, d_list', h'), g')
     \<and> frames_loop sample_lib 2 [fresh_dropper, fresh_dropper] 0 [] [blank (800, 600)] 0
       = Inr ((il, ds, hi), gi)
     \<and> length img_list = 3 \<and> distinct img_list \<and> 0 \<notin> set img_list
     \<and> h' ! (img_list ! 1) = hi ! 0"
proof -
  let ?ds = "[fresh_dropper, fresh_dropper]"
  let ?h = "[blank (800, 600)]"
  have "dropper_ready fresh_dropper"
    unfolding fresh_dropper_def by (rule TileDropper_init_ready) simp_all
  then have rd: "\<forall>d \<in> set ?ds. dropper_ready d" by simp
  from frames_loop_progress[OF sample_lib_ok rd, of 3 0 "[]" ?h 0]
  obtain img_list d_list' h' g' where
    r: "frames_loop sample_lib 3 ?ds 0 [] ?h 0 = Inr ((img_list, d_list', h'), g')"
    by blast
  have i: "\<forall>d \<in> set ?ds. td_img d = 0"
    by (simp add: fresh_dropper_def TileDropper_init_def)
  have "length img_list = 3 \<and> distinct img_list \<and> 0 \<notin> set img_list
     \<and> (\<exists>il ds hi gi. frames_loop sample_lib (Suc 1) ?ds 0 [] ?h 0 = Inr ((il, ds, hi), gi)
           \<and> h' ! (img_list ! 1) = hi ! 0)"
    by (rule snapshots_are_independent[OF r _ i]) simp_all
  moreover have "Suc 1 = 2" by simp
  ultimately show ?thesis using r by (simp only:) blast
qed

subsection \<open>The pre-fill pass\<close>


lemma heap_update_twice:
  "(h[r := v])[r := F ((h[r := v]) ! r)] = h[r := F (if r < length h then v else h ! r)]"
  by (cases "r < length h") (simp_all add: list_update_beyond not_less)


lemma all_tiles_loop_eq:
  assumes "py_range 0 (height theargs) (rowsep theargs + 16) = Inr ys"
  shows "all_tiles_loop theargs xs acc = Inr (acc @ List.product xs ys)"
  using assms by (induction xs arbitrary: acc) simp_all





lemma choices_progress:
  assumes "lib_ok L" and "population \<noteq> []"
  shows "\<exists>picked g'. choices L population k g = Inr (picked, g')"
proof (induction k arbitrary: g)
  case 0
  then show ?case by simp
next
  case (Suc k)
  have "fst (randfloor L (length population) g) < length population"
    using assms by (simp add: lib_ok_def)
  moreover obtain i g1 where r: "randfloor L (length population) g = (i, g1)"
    by (cases "randfloor L (length population) g")
  moreover from Suc[of g1] obtain picked g' where "choices L population k g1 = Inr (picked, g')"
    by blast
  ultimately show ?case by simp
qed

lemma fill_ys_progress:
  assumes "lib_ok L" and "tile_list \<noteq> []"
  shows "\<exists>h' g'. fill_ys L img tile_list glowing x ys h g = Inr (h', g')"
proof (induction ys arbitrary: h g)
  case Nil
  then show ?case by simp
next
  case (Cons y ys)
  from choice_ok[OF assms, of g] obtain t g1 where "choice L tile_list g = Inr (t, g1)" by blast
  with Cons[of _ g1] show ?case by (simp add: Let_def)
qed

lemma fill_xs_progress:
  assumes "lib_ok L" and "tile_list \<noteq> []"
    and "py_range 0 (height theargs) (rowsep theargs + 16) = Inr ys"
  shows "\<exists>h' g'. fill_xs L theargs img tile_list glowing xs h g = Inr (h', g')"
proof (induction xs arbitrary: h g)
  case Nil
  then show ?case by simp
next
  case (Cons x xs)
  from fill_ys_progress[OF assms(1,2), of img glowing x ys h g] obtain h1 g1 where
    "fill_ys L img tile_list glowing x ys h g = Inr (h1, g1)" by blast
  with Cons[of h1 g1] assms(3) show ?case by simp
qed

lemma all_tiles_eq:
  assumes "0 < colsep theargs + 16" and "0 < rowsep theargs + 16"
  shows "\<exists>xs ys. py_range 0 (width theargs) (colsep theargs + 16) = Inr xs
     \<and> py_range 0 (height theargs) (rowsep theargs + 16) = Inr ys
     \<and> all_tiles theargs = Inr (List.product xs ys)
     \<and> distinct (List.product xs ys)
     \<and> set (List.product xs ys)
          = {(x, y). 0 \<le> x \<and> x < width theargs \<and> (colsep theargs + 16) dvd x
                   \<and> 0 \<le> y \<and> y < height theargs \<and> (rowsep theargs + 16) dvd y}"
proof -
  from py_range_pos[OF assms(1), of "width theargs"] obtain xs where
    xs: "py_range 0 (width theargs) (colsep theargs + 16) = Inr xs"
        "set xs = {x. 0 \<le> x \<and> x < width theargs \<and> (colsep theargs + 16) dvd x}"
        "sorted_wrt (<) xs"
    by blast
  from py_range_pos[OF assms(2), of "height theargs"] obtain ys where
    ys: "py_range 0 (height theargs) (rowsep theargs + 16) = Inr ys"
        "set ys = {y. 0 \<le> y \<and> y < height theargs \<and> (rowsep theargs + 16) dvd y}"
        "sorted_wrt (<) ys"
    by blast
  have "all_tiles theargs = Inr (List.product xs ys)"
    using xs(1) all_tiles_loop_eq[OF ys(1), of xs "[]"] by (simp add: all_tiles_def)
  moreover have "distinct (List.product xs ys)"
    using xs(3) ys(3) by (simp add: distinct_product strict_sorted_iff)
  moreover have "set (List.product xs ys)
          = {(x, y). 0 \<le> x \<and> x < width theargs \<and> (colsep theargs + 16) dvd x
                   \<and> 0 \<le> y \<and> y < height theargs \<and> (rowsep theargs + 16) dvd y}"
    using xs(2) ys(2) by auto
  ultimately show ?thesis using xs(1) ys(1) by blast
qed

lemma randomly_fill_image_progress:
  assumes "lib_ok L" and "tile_list \<noteq> []"
    and "0 < colsep theargs + 16" and "0 < rowsep theargs + 16"
    and "0 < width theargs" and "0 < height theargs"
  shows "\<exists>h' g'. randomly_fill_image L theargs img tile_list h g = Inr (h', g')"
proof -
  from all_tiles_eq[OF assms(3,4)] obtain xs ys where
    xs: "py_range 0 (width theargs) (colsep theargs + 16) = Inr xs"
    and ys: "py_range 0 (height theargs) (rowsep theargs + 16) = Inr ys"
    and at: "all_tiles theargs = Inr (List.product xs ys)"
    and st: "set (List.product xs ys)
          = {(x, y). 0 \<le> x \<and> x < width theargs \<and> (colsep theargs + 16) dvd x
                   \<and> 0 \<le> y \<and> y < height theargs \<and> (rowsep theargs + 16) dvd y}"
    by blast
  have ne: "List.product xs ys \<noteq> []"
  proof
    assume e: "List.product xs ys = []"
    have "(0::int, 0::int) \<in> set (List.product xs ys)"
      unfolding st using assms(5,6) by simp
    then show False unfolding e by simp
  qed
  from choices_progress[OF assms(1) ne, of 24 g] obtain glowing g1 where
    c: "choices L (List.product xs ys) 24 g = Inr (glowing, g1)" by blast
  from fill_xs_progress[OF assms(1,2) ys, of img glowing xs h g1] obtain h' g' where
    "fill_xs L theargs img tile_list glowing xs h g1 = Inr (h', g')" by blast
  with at c xs show ?thesis by (simp add: randomly_fill_image_def)
qed



lemma run_setup_prefill_progress:
  assumes "prefill theargs" and "lib_ok L" and "tile_list \<noteq> []"
    and "0 < colsep theargs + 16" and "0 < rowsep theargs + 16"
    and "0 < width theargs" and "0 < height theargs"
    and "anchor_grid theargs tile_list (width theargs, height theargs) = Inr (thecols, therows)"
  shows "\<exists>h1 g1. run_setup L theargs tile_list g
           = Inr ((make_droppers theargs thecols therows tile_list 0, h1), g1)"
proof -
  let ?im = "blank (width theargs, height theargs)"
  have im: "Image_new (width theargs, height theargs) = Inr ?im"
    using assms(6,7) by (simp add: Image_new_def blank_def)
  from randomly_fill_image_progress[OF assms(2-7), of 0 "[?im]" g] obtain h1 g1 where
    f: "randomly_fill_image L theargs 0 tile_list [?im] g = Inr (h1, g1)" by blast
  from randomly_fill_image_heap[OF f, of 0]
  have "isize (h1 ! 0) = (width theargs, height theargs)" by (simp add: blank_def)
  with im f assms(1,8) show ?thesis by (simp add: run_setup_def)
qed


lemma small_args_grid:
  "anchor_grid small_args [tile16] (40, 120) = Inr ([0, 20], [0, 18])"
  by (simp add: anchor_grid_def small_args_def default_args_def tile16_def py_range_def
      upt_conv_Cons)




subsection \<open>The run depends on the generator only through its draws\<close>

lemma same_outcome_Inl [simp]: "same_outcome R (Inl e) r \<longleftrightarrow> r = Inl e"
  by (simp add: same_outcome_def)

lemma same_outcome_Inr [simp]:
  "same_outcome R (Inr (a, g1)) r \<longleftrightarrow> (\<exists>g2. r = Inr (a, g2) \<and> R g1 g2)"
  by (auto simp: same_outcome_def split: sum.splits)

lemma same_outcome_bind:
  assumes "same_outcome R r1 r2"
    and "\<And>a g1 g2. R g1 g2 \<Longrightarrow> same_outcome R (f1 a g1) (f2 a g2)"
  shows "same_outcome R (case r1 of Inl e \<Rightarrow> Inl e | Inr (a, g) \<Rightarrow> f1 a g)
                        (case r2 of Inl e \<Rightarrow> Inl e | Inr (a, g) \<Rightarrow> f2 a g)"
proof (cases r1)
  case (Inl e)
  with assms(1) show ?thesis by simp
next
  case (Inr p)
  obtain a g1 where p: "p = (a, g1)" by (cases p)
  with Inr assms(1) obtain g2 where "r2 = Inr (a, g2)" "R g1 g2" by auto
  with Inr p assms(2)[of g1 g2 a] show ?thesis by simp
qed

lemma choice_sim:
  assumes "lib_sim R L1 L2" and "R g1 g2"
  shows "same_outcome R (choice L1 xs g1) (choice L2 xs g2)"
proof -
  obtain k1 g1' where r1: "randbelow L1 (length xs) g1 = (k1, g1')"
    by (cases "randbelow L1 (length xs) g1")
  obtain k2 g2' where r2: "randbelow L2 (length xs) g2 = (k2, g2')"
    by (cases "randbelow L2 (length xs) g2")
  from assms have "fst (randbelow L1 (length xs) g1) = fst (randbelow L2 (length xs) g2)"
    "R (snd (randbelow L1 (length xs) g1)) (snd (randbelow L2 (length xs) g2))"
    by (simp_all add: lib_sim_def)
  with r1 r2 have "k1 = k2" "R g1' g2'" by simp_all
  with r1 r2 show ?thesis by (simp add: choice_def)
qed

lemma choices_sim:
  assumes "lib_sim R L1 L2"
  shows "R g1 g2 \<Longrightarrow> same_outcome R (choices L1 xs k g1) (choices L2 xs k g2)"
proof (induction k arbitrary: g1 g2)
  case 0
  then show ?case by simp
next
  case (Suc k)
  obtain i g1' where r1: "randfloor L1 (length xs) g1 = (i, g1')"
    by (cases "randfloor L1 (length xs) g1")
  obtain j g2' where r2: "randfloor L2 (length xs) g2 = (j, g2')"
    by (cases "randfloor L2 (length xs) g2")
  from assms Suc.prems have "fst (randfloor L1 (length xs) g1) = fst (randfloor L2 (length xs) g2)"
    "R (snd (randfloor L1 (length xs) g1)) (snd (randfloor L2 (length xs) g2))"
    by (simp_all add: lib_sim_def)
  with r1 r2 have "j = i" and r: "R g1' g2'" by simp_all
  with r2 have r2': "randfloor L2 (length xs) g2 = (i, g2')" by simp
  have "same_outcome R
          (case choices L1 xs k g1' of Inl e \<Rightarrow> Inl e
           | Inr (rest, g) \<Rightarrow> Inr (xs ! i # rest, g))
          (case choices L2 xs k g2' of Inl e \<Rightarrow> Inl e
           | Inr (rest, g) \<Rightarrow> Inr (xs ! i # rest, g))"
    by (rule same_outcome_bind[OF Suc.IH[OF r]]) simp
  then show ?case by (simp add: r1 r2')
qed

lemma update_location_sim:
  assumes "lib_sim R L1 L2" and "R g1 g2"
  shows "same_outcome R (update_location L1 d g1) (update_location L2 d g2)"
  unfolding update_location_def Let_def
  by (intro same_outcome_bind choice_sim[OF assms(1)] assms(2)) simp_all

lemma paste_entries_sim:
  "enhance L1 = enhance L2 \<Longrightarrow> paste_entries L1 d es c h = paste_entries L2 d es c h"
  by (induction es arbitrary: c h) (simp_all split: option.splits)

lemma drop_tile_sim:
  assumes "lib_sim R L1 L2" and "R g1 g2"
  shows "same_outcome R (drop_tile L1 d h g1) (drop_tile L2 d h g2)"
proof -
  have e: "enhance L1 = enhance L2" using assms(1) by (simp add: lib_sim_def)
  have u: "same_outcome R (if td_curloc d = None then update_location L1 d g1 else Inr (d, g1))
             (if td_curloc d = None then update_location L2 d g2 else Inr (d, g2))"
    using update_location_sim[OF assms] assms(2) by simp
  show ?thesis
    unfolding drop_tile_def Let_def
    apply (rule same_outcome_bind[OF u])
    apply (rule same_outcome_bind)
     apply (erule choice_sim[OF assms(1)])
    apply (simp add: paste_entries_sim[OF e] split: sum.splits option.splits)
    done
qed

lemma drop_all_sim:
  assumes "lib_sim R L1 L2"
  shows "R g1 g2 \<Longrightarrow> same_outcome R (drop_all L1 ds h g1) (drop_all L2 ds h g2)"
proof (induction ds arbitrary: h g1 g2)
  case Nil
  then show ?case by simp
next
  case (Cons d ds)
  show ?case
    unfolding drop_all.simps
    apply (rule same_outcome_bind[OF drop_tile_sim[OF assms Cons.prems]])
    subgoal for a g1' g2'
      apply (cases a)
      apply (simp only: prod.case)
      apply (rule same_outcome_bind[OF Cons.IH])
       apply assumption
      apply (simp split: prod.splits)
      done
    done
qed

lemma frames_loop_sim:
  assumes "lib_sim R L1 L2"
  shows "R g1 g2 \<Longrightarrow>
    same_outcome R (frames_loop L1 n ds img il h g1) (frames_loop L2 n ds img il h g2)"
proof (induction n arbitrary: ds il h g1 g2)
  case 0
  then show ?case by simp
next
  case (Suc n)
  show ?case
    unfolding frames_loop.simps
    apply (rule same_outcome_bind[OF drop_all_sim[OF assms Suc.prems]])
    subgoal for a g1' g2'
      apply (cases a)
      apply (simp only: prod.case heap_copy_def)
      apply (erule Suc.IH)
      done
    done
qed

lemma fill_ys_sim:
  assumes "lib_sim R L1 L2"
  shows "R g1 g2 \<Longrightarrow>
    same_outcome R (fill_ys L1 img tile_list glowing x ys h g1)
                   (fill_ys L2 img tile_list glowing x ys h g2)"
proof (induction ys arbitrary: h g1 g2)
  case Nil
  then show ?case by simp
next
  case (Cons y ys)
  have e: "enhance L1 = enhance L2" using assms by (simp add: lib_sim_def)
  show ?case
    unfolding fill_ys.simps Let_def e
    apply (rule same_outcome_bind[OF choice_sim[OF assms Cons.prems]])
    apply (erule Cons.IH)
    done
qed

lemma fill_xs_sim:
  assumes "lib_sim R L1 L2"
  shows "R g1 g2 \<Longrightarrow>
    same_outcome R (fill_xs L1 theargs img tile_list glowing xs h g1)
                   (fill_xs L2 theargs img tile_list glowing xs h g2)"
proof (induction xs arbitrary: h g1 g2)
  case Nil
  then show ?case by simp
next
  case (Cons x xs)
  show ?case
  proof (cases "py_range 0 (height theargs) (rowsep theargs + 16)")
    case (Inl e)
    then show ?thesis by simp
  next
    case (Inr ys)
    show ?thesis
      unfolding fill_xs.simps Inr sum.case
      apply (rule same_outcome_bind[OF fill_ys_sim[OF assms Cons.prems]])
      apply (erule Cons.IH)
      done
  qed
qed

lemma randomly_fill_image_sim:
  assumes "lib_sim R L1 L2" and "R g1 g2"
  shows "same_outcome R (randomly_fill_image L1 theargs img tile_list h g1)
                        (randomly_fill_image L2 theargs img tile_list h g2)"
proof (cases "all_tiles theargs")
  case (Inl e)
  then show ?thesis by (simp add: randomly_fill_image_def)
next
  case (Inr cells)
  show ?thesis
    unfolding randomly_fill_image_def Inr sum.case
    apply (rule same_outcome_bind[OF choices_sim[OF assms]])
    apply (cases "py_range 0 (width theargs) (colsep theargs + 16)")
     apply simp
    apply (simp only: sum.case)
    apply (erule fill_xs_sim[OF assms(1)])
    done
qed

lemma run_setup_sim:
  assumes "lib_sim R L1 L2" and "R g1 g2"
  shows "same_outcome R (run_setup L1 theargs tile_list g1) (run_setup L2 theargs tile_list g2)"
proof (cases "Image_new (width theargs, height theargs)")
  case (Inl e)
  then show ?thesis by (simp add: run_setup_def)
next
  case (Inr im)
  have p: "same_outcome R
      (if prefill theargs then randomly_fill_image L1 theargs 0 tile_list [im] g1 else Inr ([im], g1))
      (if prefill theargs then randomly_fill_image L2 theargs 0 tile_list [im] g2 else Inr ([im], g2))"
    using randomly_fill_image_sim[OF assms] assms(2) by simp
  show ?thesis
    unfolding run_setup_def Inr sum.case
    apply (rule same_outcome_bind[OF p])
    apply (simp split: sum.splits prod.splits)
    done
qed

lemma run_sim:
  assumes "lib_sim R L1 L2" and "R g1 g2"
  shows "same_outcome R (run L1 theargs tile_list g1) (run L2 theargs tile_list g2)"
  unfolding run_def
  apply (rule same_outcome_bind[OF run_setup_sim[OF assms]])
  subgoal for a g1' g2'
    apply (cases a)
    apply (simp only: prod.case)
    apply (rule same_outcome_bind[OF frames_loop_sim[OF assms(1)]])
     apply assumption
    apply (simp split: sum.splits prod.splits)
    done
  done

lemma same_outcome_map_sum:
  "same_outcome R r1 r2 \<Longrightarrow> map_sum id fst r1 = map_sum id fst r2"
  by (cases r1; cases r2) (auto simp: same_outcome_def)

lemma sample_libs_sim: "lib_sim (\<lambda>g k. k = g + 100) sample_lib sample_lib_100"
  by (simp add: lib_sim_def sample_lib_def sample_lib_100_def)

lemma run_progress:
  assumes "run_setup L theargs tile_list g
             = Inr ((make_droppers theargs thecols therows tile_list 0, h1), g1)"
    and "lib_ok L" and "tile_list \<noteq> []" and "thecols \<noteq> []" and "therows \<noteq> []"
    and "0 < numframes theargs"
  shows "\<exists>a g'. run L theargs tile_list g = Inr (a, g')"
proof -
  let ?ds = "make_droppers theargs thecols therows tile_list 0"
  have rd: "\<forall>d \<in> set ?ds. dropper_ready d"
    using TileDropper_init_ready[OF assms(3-5)] by (simp add: make_droppers_def)
  have im: "\<forall>d \<in> set ?ds. td_img d = 0"
    by (simp add: make_droppers_def TileDropper_init_def)
  from frames_loop_progress[OF assms(2) rd, of "nat (numframes theargs)" 0 "[]" h1 g1]
  obtain il ds' h2 g2 where
    f: "frames_loop L (nat (numframes theargs)) ?ds 0 [] h1 g1 = Inr ((il, ds', h2), g2)"
    by blast
  from frames_loop_heap[OF f im] have "length il = nat (numframes theargs)" by simp
  with assms(6) obtain r rs where "il = r # rs" by (cases il) auto
  with assms(1) f show ?thesis by (simp add: run_def save_gif_def)
qed

text \<open>
  Claim C8. Two runs with the same configuration and the same tiles, on random
  generators that deliver the same draws from then on (in particular one generator
  started twice from the same seed), end alike: both raise the same exception, or both
  hand the same animation (the same frames, loop count and duration) to the encoder.
\<close>

theorem run_deterministic:
  assumes "lib_sim R L1 L2" and "R g1 g2"
  shows "map_sum id fst (run L1 theargs tile_list g1)
       = map_sum id fst (run L2 theargs tile_list g2)"
  using run_sim[OF assms] by (rule same_outcome_map_sum)

theorem run_deterministic_witness:
  "lib_sim (\<lambda>g k. k = g + 100) sample_lib sample_lib_100
   \<and> (\<exists>a g'. run sample_lib small_args [tile16] 0 = Inr (a, g'))
   \<and> map_sum id fst (run sample_lib small_args [tile16] 0)
       = map_sum id fst (run sample_lib_100 small_args [tile16] 100)"
proof -
  have p: "prefill small_args" "0 < colsep small_args + 16" "0 < rowsep small_args + 16"
    "0 < width small_args" "0 < height small_args" "0 < numframes small_args"
    by (simp_all add: small_args_def default_args_def)
  have a: "anchor_grid small_args [tile16] (width small_args, height small_args)
             = Inr ([0, 20], [0, 18])"
    using small_args_grid by (simp add: small_args_def)
  from run_setup_prefill_progress[OF p(1) sample_lib_ok _ p(2-5) a, of 0]
  obtain h1 g1 where
    "run_setup sample_lib small_args [tile16] 0
          = Inr ((make_droppers small_args [0, 20] [0, 18] [tile16] 0, h1), g1)"
    by auto
  from run_progress[OF this sample_lib_ok _ _ _ p(6)]
  have "\<exists>a g'. run sample_lib small_args [tile16] 0 = Inr (a, g')" by simp
  moreover have "(100::nat) = 0 + 100" by simp
  note run_deterministic[OF sample_libs_sim this, of small_args "[tile16]"]
  ultimately show ?thesis using sample_libs_sim by simp
qed

end
